theory Spec2Isabelle
  imports Complex_Main
begin

section \<open>The source context of a grammar file\<close>

text \<open>
  A shallow embedding of the class \<open>SourceContext\<close>: one context per grammar file, holding the
  token stream, the parser, the symbol table, the diagnostics and the interpreter data of
  that file. Objects that the class only hands on (parse trees, symbols, diagnostic
  entries, the vocabulary) are type parameters; the generated ANTLR parser, the tree
  listeners and the file system are parameters of the functions that use them.
\<close>

subsection \<open>Enumerations and exceptions\<close>

datatype GrammarType = Unknown | Parser | Lexer | Combined

datatype ErrorStrategy = BailErrorStrategy | DefaultErrorStrategy

datatype PredictionMode = SLL | LL | LL_EXACT_AMBIG_DETECTION

text \<open>What a call can throw: the cancellation of the bail strategy, a JavaScript
  \<open>TypeError\<close> (a property read on \<open>undefined\<close>), the duplicate error of a symbol table,
  or anything else.\<close>

datatype exn = ParseCancellationException | TypeError | DuplicateSymbolError | OtherException string

text \<open>The keyword found by \<open>tree.grammarType()\<close>: \<open>LEXER()\<close>, \<open>PARSER()\<close> or neither.\<close>

datatype grammar_keyword = LEXER | PARSER | NoKeyword

subsection \<open>The automaton data of antlr4ts, as far as the class reads it\<close>

datatype ATNStateType =
    INVALID_TYPE | BASIC | RULE_START | BLOCK_START | PLUS_BLOCK_START | STAR_BLOCK_START
  | TOKEN_START | RULE_STOP | BLOCK_END | STAR_LOOP_BACK | STAR_LOOP_ENTRY | PLUS_LOOP_BACK
  | LOOP_END

fun stateTypeValue :: "ATNStateType \<Rightarrow> nat" where
  "stateTypeValue INVALID_TYPE = 0"
| "stateTypeValue BASIC = 1"
| "stateTypeValue RULE_START = 2"
| "stateTypeValue BLOCK_START = 3"
| "stateTypeValue PLUS_BLOCK_START = 4"
| "stateTypeValue STAR_BLOCK_START = 5"
| "stateTypeValue TOKEN_START = 6"
| "stateTypeValue RULE_STOP = 7"
| "stateTypeValue BLOCK_END = 8"
| "stateTypeValue STAR_LOOP_BACK = 9"
| "stateTypeValue STAR_LOOP_ENTRY = 10"
| "stateTypeValue PLUS_LOOP_BACK = 11"
| "stateTypeValue LOOP_END = 12"

datatype TransitionType =
    EPSILON | RANGE | RULE | PREDICATE | ATOM | ACTION | SET | NOT_SET | WILDCARD | PRECEDENCE

text \<open>
  A transition names its target by state number (antlr4ts numbers the states of an
  automaton by their position in \<open>atn.states\<close>). Each constructor is one transition class
  with the fields the extractor reads; the target comes first. After it: \<open>from\<close> and \<open>to\<close>
  of a range, the rule index and the follow state of a rule call, the predicate index,
  the label of an atom, the action index, the intervals of a set, the precedence.
\<close>

datatype Transition =
    EpsilonTransition nat
  | RangeTransition nat int int
  | RuleTransition nat nat nat
  | PredicateTransition nat nat
  | AtomTransition nat int
  | ActionTransition nat nat
  | SetTransition nat "(int \<times> int) list"
  | NotSetTransition nat "(int \<times> int) list"
  | WildcardTransition nat
  | PrecedencePredicateTransition nat int

fun target :: "Transition \<Rightarrow> nat" where
  "target (EpsilonTransition t) = t"
| "target (RangeTransition t a b) = t"
| "target (RuleTransition t r f) = t"
| "target (PredicateTransition t p) = t"
| "target (AtomTransition t l) = t"
| "target (ActionTransition t a) = t"
| "target (SetTransition t s) = t"
| "target (NotSetTransition t s) = t"
| "target (WildcardTransition t) = t"
| "target (PrecedencePredicateTransition t p) = t"

fun serializationType :: "Transition \<Rightarrow> TransitionType" where
  "serializationType (EpsilonTransition t) = EPSILON"
| "serializationType (RangeTransition t a b) = RANGE"
| "serializationType (RuleTransition t r f) = RULE"
| "serializationType (PredicateTransition t p) = PREDICATE"
| "serializationType (AtomTransition t l) = ATOM"
| "serializationType (ActionTransition t a) = ACTION"
| "serializationType (SetTransition t s) = SET"
| "serializationType (NotSetTransition t s) = NOT_SET"
| "serializationType (WildcardTransition t) = WILDCARD"
| "serializationType (PrecedencePredicateTransition t p) = PRECEDENCE"

fun isEpsilon :: "Transition \<Rightarrow> bool" where
  "isEpsilon (EpsilonTransition t) = True"
| "isEpsilon (RuleTransition t r f) = True"
| "isEpsilon (PredicateTransition t p) = True"
| "isEpsilon (ActionTransition t a) = True"
| "isEpsilon (PrecedencePredicateTransition t p) = True"
| "isEpsilon _ = False"

text \<open>The \<open>label\<close> property: an interval set, or \<open>undefined\<close>.\<close>

fun label :: "Transition \<Rightarrow> (int \<times> int) list option" where
  "label (RangeTransition t a b) = Some [(a, b)]"
| "label (AtomTransition t l) = Some [(l, l)]"
| "label (SetTransition t s) = Some s"
| "label (NotSetTransition t s) = Some s"
| "label _ = None"

text \<open>The \<open>followState\<close> property exists on a rule transition only.\<close>

fun followState :: "Transition \<Rightarrow> nat option" where
  "followState (RuleTransition t r f) = Some f"
| "followState _ = None"

record ATNState =
  stateType :: ATNStateType
  ruleIndex :: nat
  transitions :: "Transition list"

record ATN =
  states :: "ATNState list"
  ruleToStartState :: "nat list"
  ruleToStopState :: "nat list"

text \<open>
  A JavaScript string is a sequence of UTF-16 code units. The names of rules, whose first
  code unit \<open>getATNGraph\<close> and \<open>generateSentence\<close> compare with its upper case, and the
  strings of the automaton graph and of the generated sentences are lists of code units,
  each a natural number. \<open>utf16\<close> gives the code units of a literal of Basic Latin
  characters.
\<close>

type_synonym code_unit = nat

type_synonym jsstring = "code_unit list"

definition utf16 :: "string \<Rightarrow> jsstring" where
  "utf16 s = map of_char s"

record 'voc InterpreterData =
  atn :: ATN
  ruleNames :: "jsstring list"
  vocabulary :: 'voc

subsection \<open>The fields of a source context\<close>

datatype table_ref = GlobalSymbols | TableOf nat

record 'sym ContextSymbolTable =
  allowDuplicateSymbols :: bool
  symbols :: "'sym list"
  dependencies :: "table_ref list"

record ContextDetails =
  grammar_type :: GrammarType
  unreferencedRules :: "string list"
  import_list :: "string list"

record ANTLRv4Parser =
  errorHandler :: "ErrorStrategy option"
  predictionMode :: PredictionMode

text \<open>
  \<open>tokenStream\<close> is \<open>undefined\<close> until \<open>setText\<close>, then the text it was made from and the
  stream's position; \<open>references\<close> holds the identities of the
  contexts referencing this one; \<open>rrdScripts\<close> is \<open>undefined\<close> until the first semantic
  analysis. \<open>trace\<close> is not a field of the class: it logs every call of
  \<open>parser.grammarSpec()\<close> (with the error strategy, the prediction mode and the stream
  position it started from) and every walk of the semantic listener, so that the effects
  "the parser ran" and "the semantic pass ran" can be stated.
\<close>

datatype event =
    GrammarSpecRun "ErrorStrategy option" PredictionMode nat
  | SemanticWalkRun

record ('tree, 'sym, 'diag, 'voc) SourceContext =
  fileName :: string
  sourceId :: string
  symbolTable :: "'sym ContextSymbolTable"
  info :: ContextDetails
  diagnostics :: "'diag list"
  references :: "nat list"
  rrdScripts :: "(string \<rightharpoonup> string) option"
  semanticAnalysisDone :: bool
  tokenStream :: "(string \<times> nat) option"
  parser :: "ANTLRv4Parser option"
  grammarLexerData :: "'voc InterpreterData option"
  grammarLexerRuleMap :: "jsstring \<rightharpoonup> nat"
  grammarParserData :: "'voc InterpreterData option"
  grammarParserRuleMap :: "jsstring \<rightharpoonup> nat"
  tree :: "'tree option"
  trace :: "event list"

subsection \<open>The collaborators\<close>

text \<open>
  The generated parser and the listeners are not part of the class. \<open>grammarSpec\<close> runs
  the parser with a strategy and a prediction mode on a text from a stream position and gives the
  tree or the exception, the syntax errors it reported to the error listener, and the
  position it stopped at. \<open>detailsWalk\<close> is the walk of \<open>DetailsListener\<close> (symbols and
  imports found), \<open>semanticWalk\<close> the walk of \<open>SemanticListener\<close> (diagnostics pushed, the
  symbol table with its reference counts), \<open>ruleVisit\<close> the scripts \<open>RuleVisitor\<close> stores.
\<close>

record ('tree, 'sym, 'diag) frontend =
  grammarSpec :: "ErrorStrategy option \<Rightarrow> PredictionMode \<Rightarrow> string \<Rightarrow> nat
                  \<Rightarrow> (exn + 'tree) \<times> 'diag list \<times> nat"
  childCount :: "'tree \<Rightarrow> nat"
  grammarType :: "'tree \<Rightarrow> exn + grammar_keyword"
  detailsWalk :: "'tree \<Rightarrow> 'sym list \<times> string list"
  getUnreferencedSymbols :: "'sym ContextSymbolTable \<Rightarrow> string list"
  semanticWalk :: "'tree \<Rightarrow> 'sym ContextSymbolTable \<Rightarrow> 'diag list \<times> 'sym ContextSymbolTable"
  ruleVisit :: "'tree \<Rightarrow> (string \<rightharpoonup> string)"
  symbolTable_getReferenceCount :: "'sym ContextSymbolTable \<Rightarrow> string \<Rightarrow> nat"

subsection \<open>setText and parse\<close>

text \<open>\<open>setText\<close> only makes a new token stream over the new text.\<close>

definition setText ::
  "string \<Rightarrow> ('tree, 'sym, 'diag, 'voc) SourceContext \<Rightarrow> ('tree, 'sym, 'diag, 'voc) SourceContext" where
  "setText source c = c\<lparr>tokenStream := Some (source, 0)\<rparr>"

text \<open>\<open>Set.add\<close> of antlr4-c3's dependency set (insertion ordered, no duplicates) and
  \<open>clear\<close>, which empties the symbols and the dependencies.\<close>

definition addDependencies :: "table_ref \<Rightarrow> 'sym ContextSymbolTable \<Rightarrow> 'sym ContextSymbolTable" where
  "addDependencies t tab =
     (if t \<in> set (dependencies tab) then tab else tab\<lparr>dependencies := dependencies tab @ [t]\<rparr>)"

definition clear :: "'sym ContextSymbolTable \<Rightarrow> 'sym ContextSymbolTable" where
  "clear tab = tab\<lparr>symbols := [], dependencies := []\<rparr>"

text \<open>The statements of \<open>parse\<close> between \<open>tokenStream.seek(0)\<close> and the \<open>try\<close>: a new parser
  in bail/SLL mode, and the results of the previous run reset. The second
  \<open>this.grammarLexerRuleMap.clear()\<close> of the source repeats the first, so
  \<open>grammarParserRuleMap\<close> is not written here.\<close>

definition parse_reset ::
  "string \<Rightarrow> ('tree, 'sym, 'diag, 'voc) SourceContext \<Rightarrow> ('tree, 'sym, 'diag, 'voc) SourceContext" where
  "parse_reset text c =
     c\<lparr>tokenStream := Some (text, 0),
       parser := Some \<lparr>errorHandler = Some BailErrorStrategy, predictionMode = SLL\<rparr>,
       tree := None,
       info := (info c)\<lparr>grammar_type := Unknown, import_list := []\<rparr>,
       grammarLexerData := None,
       grammarLexerRuleMap := Map.empty,
       grammarParserData := None,
       semanticAnalysisDone := False,
       diagnostics := [],
       symbolTable := addDependencies GlobalSymbols (clear (symbolTable c))\<rparr>"

text \<open>One call of \<open>this.parser.grammarSpec()\<close> with the parser as it is configured: the run
  is logged, the reported syntax errors reach the diagnostics, the stream moves on.
  Both callers have set the stream and the parser before.\<close>

definition run_grammarSpec ::
  "('tree, 'sym, 'diag) frontend \<Rightarrow> ('tree, 'sym, 'diag, 'voc) SourceContext
   \<Rightarrow> (exn + 'tree) \<times> ('tree, 'sym, 'diag, 'voc) SourceContext" where
  "run_grammarSpec fe c =
     (case (tokenStream c, parser c) of
        (Some (text, start), Some p) \<Rightarrow>
          (let (r, ds, pos) = grammarSpec fe (errorHandler p) (predictionMode p) text start
           in (r, c\<lparr>trace := trace c @ [GrammarSpecRun (errorHandler p) (predictionMode p) start],
                    diagnostics := diagnostics c @ ds,
                    tokenStream := Some (text, pos)\<rparr>))
      | _ \<Rightarrow> (Inl TypeError, c))"

text \<open>The \<open>try\<close>/\<open>catch\<close> around the first run: a cancellation rewinds the stream, resets the
  parser to the default strategy and LL prediction and runs it again, outside any
  handler; every other exception is thrown on.\<close>

definition parse_tree ::
  "('tree, 'sym, 'diag) frontend \<Rightarrow> string \<Rightarrow> ('tree, 'sym, 'diag, 'voc) SourceContext
   \<Rightarrow> (exn + 'tree) \<times> ('tree, 'sym, 'diag, 'voc) SourceContext" where
  "parse_tree fe text c =
     (case run_grammarSpec fe c of
        (Inr t, c1) \<Rightarrow> (Inr t, c1)
      | (Inl e, c1) \<Rightarrow>
          if e = ParseCancellationException then
            run_grammarSpec fe
              (c1\<lparr>tokenStream := Some (text, 0),
                  parser := Some \<lparr>errorHandler = Some DefaultErrorStrategy, predictionMode = LL\<rparr>\<rparr>)
          else (Inl e, c1))"

text \<open>The grammar kind from the header; an exception of \<open>grammarType()\<close> is ignored.\<close>

definition parse_kind :: "('tree, 'sym, 'diag) frontend \<Rightarrow> 'tree \<Rightarrow> GrammarType \<Rightarrow> GrammarType" where
  "parse_kind fe t old =
     (if childCount fe t > 0 then
        (case grammarType fe t of
           Inl e \<Rightarrow> old
         | Inr LEXER \<Rightarrow> Lexer
         | Inr PARSER \<Rightarrow> Parser
         | Inr NoKeyword \<Rightarrow> Combined)
      else old)"

text \<open>The statements after the \<open>try\<close>: the tree is kept, the kind read from the header,
  the symbols and imports collected by the walk, the unreferenced rules computed.\<close>

definition parse_walk ::
  "('tree, 'sym, 'diag) frontend \<Rightarrow> 'tree \<Rightarrow> ('tree, 'sym, 'diag, 'voc) SourceContext
   \<Rightarrow> ('tree, 'sym, 'diag, 'voc) SourceContext" where
  "parse_walk fe t c1 =
     (let tab = (symbolTable c1)\<lparr>symbols := symbols (symbolTable c1) @ fst (detailsWalk fe t)\<rparr>
      in c1\<lparr>tree := Some t,
            symbolTable := tab,
            info := \<lparr>grammar_type = parse_kind fe t (grammar_type (info c1)),
                     unreferencedRules = getUnreferencedSymbols fe tab,
                     import_list = import_list (info c1) @ snd (detailsWalk fe t)\<rparr>\<rparr>)"

text \<open>\<open>parse\<close> returns the import list, or throws; the context is changed either way,
  except when there is no token stream yet: then the first statement throws.\<close>

definition parse ::
  "('tree, 'sym, 'diag) frontend \<Rightarrow> ('tree, 'sym, 'diag, 'voc) SourceContext
   \<Rightarrow> (exn + string list) \<times> ('tree, 'sym, 'diag, 'voc) SourceContext" where
  "parse fe c =
     (case tokenStream c of
        None \<Rightarrow> (Inl TypeError, c)
      | Some (text, pos) \<Rightarrow>
         (case parse_tree fe text (parse_reset text c) of
            (Inl e, c1) \<Rightarrow> (Inl e, c1)
          | (Inr t, c1) \<Rightarrow> (Inr (import_list (info (parse_walk fe t c1))), parse_walk fe t c1)))"

subsection \<open>Semantic analysis on demand\<close>

text \<open>
  \<open>runSemanticAnalysisIfNeeded\<close> sets the flag first, replaces the script map, and walks
  \<open>this.tree!\<close>: with no tree the walk reads a property of \<open>undefined\<close> and throws, the flag
  staying set. The diagnostics are not emptied (that statement is commented out in the
  source): the listener pushes onto the list it was given.
\<close>

definition runSemanticAnalysisIfNeeded ::
  "('tree, 'sym, 'diag) frontend \<Rightarrow> ('tree, 'sym, 'diag, 'voc) SourceContext
   \<Rightarrow> exn option \<times> ('tree, 'sym, 'diag, 'voc) SourceContext" where
  "runSemanticAnalysisIfNeeded fe c =
     (if \<not> semanticAnalysisDone c then
        (let c1 = c\<lparr>semanticAnalysisDone := True, rrdScripts := Some Map.empty\<rparr>
         in case tree c1 of
              None \<Rightarrow> (Some TypeError, c1)
            | Some t \<Rightarrow>
                (let (ds, tab) = semanticWalk fe t (symbolTable c1)
                 in (None, c1\<lparr>trace := trace c1 @ [SemanticWalkRun],
                               diagnostics := diagnostics c1 @ ds,
                               symbolTable := tab,
                               rrdScripts := Some (ruleVisit fe t)\<rparr>)))
      else (None, c))"




subsection \<open>Loading the interpreter data\<close>

text \<open>The file system, the reader of \<open>.interp\<close> files and node's \<open>path\<close> module.\<close>

record 'voc host =
  existsSync :: "string \<Rightarrow> bool"
  parseFile :: "string \<Rightarrow> 'voc InterpreterData"
  path_basename :: "string \<Rightarrow> string \<Rightarrow> string"
  path_extname :: "string \<Rightarrow> string"
  path_dirname :: "string \<Rightarrow> string"
  path_join :: "string \<Rightarrow> string \<Rightarrow> string"

definition endsWith :: "string \<Rightarrow> string \<Rightarrow> bool" where
  "endsWith s suffix =
     (length suffix \<le> length s \<and> drop (length s - length suffix) s = suffix)"

text \<open>The loop \<open>map.set(ruleNames[i], i)\<close>: a later index overwrites an earlier one.\<close>

definition ruleMapOf :: "jsstring list \<Rightarrow> (jsstring \<rightharpoonup> nat)" where
  "ruleMapOf names = foldl (\<lambda>m i. m(names ! i \<mapsto> i)) Map.empty [0..<length names]"

definition setupInterpreters ::
  "'voc host \<Rightarrow> string option \<Rightarrow> ('tree, 'sym, 'diag, 'voc) SourceContext
   \<Rightarrow> ('tree, 'sym, 'diag, 'voc) SourceContext" where
  "setupInterpreters h outputDir c =
     (let baseName = (if endsWith (fileName c) ''.g4''
                      then path_basename h (fileName c) ''.g4''
                      else path_basename h (fileName c) ''.g'');
          grammarPath = (case outputDir of
                           None \<Rightarrow> path_dirname h (fileName c)
                         | Some d \<Rightarrow> if d = [] then path_dirname h (fileName c) else d);
          (lexerFile, parserFile) =
            (case grammar_type (info c) of
               Combined \<Rightarrow>
                 (let baseName' = (if endsWith baseName ''Parser''
                                   then take (length baseName - length ''Parser'') baseName
                                   else baseName)
                  in (path_join h grammarPath baseName' @ ''Lexer.interp'',
                      path_join h grammarPath baseName @ ''.interp''))
             | Lexer \<Rightarrow> (path_join h grammarPath baseName @ ''.interp'', [])
             | Parser \<Rightarrow> ([], path_join h grammarPath baseName @ ''.interp'')
             | Unknown \<Rightarrow> ([], []));
          c1 = (if existsSync h lexerFile
                then c\<lparr>grammarLexerData := Some (parseFile h lexerFile),
                       grammarLexerRuleMap := ruleMapOf (ruleNames (parseFile h lexerFile))\<rparr>
                else c\<lparr>grammarLexerData := None, grammarLexerRuleMap := Map.empty\<rparr>)
      in if existsSync h parserFile
         then c1\<lparr>grammarParserData := Some (parseFile h parserFile),
                 grammarParserRuleMap := ruleMapOf (ruleNames (parseFile h parserFile))\<rparr>
         else c1\<lparr>grammarParserData := None, grammarParserRuleMap := Map.empty\<rparr>)"

definition isInterpreterDataLoaded :: "('tree, 'sym, 'diag, 'voc) SourceContext \<Rightarrow> bool" where
  "isInterpreterDataLoaded c = (grammarLexerData c \<noteq> None \<or> grammarParserData c \<noteq> None)"

subsection \<open>The reference mesh\<close>

text \<open>
  Contexts are objects that point at each other, so they live in a store addressed by
  identity; \<open>references (st c)\<close> lists the contexts referencing \<open>c\<close>.
\<close>

type_synonym ('tree, 'sym, 'diag, 'voc) store = "nat \<Rightarrow> ('tree, 'sym, 'diag, 'voc) SourceContext"

text \<open>
  The \<open>while\<close> loop of \<open>addAsReferenceTo\<close>: the pipeline is a queue, \<open>shift\<close> takes its head
  and the references of the head are pushed at its end. The result says whether the
  loop left through \<open>return\<close> (\<open>True\<close>: already in the list) or ran the pipeline empty;
  a loop that does neither has no value.
\<close>

partial_function (option) mutualInclusion ::
  "('tree, 'sym, 'diag, 'voc) store \<Rightarrow> nat \<Rightarrow> nat list \<Rightarrow> bool option" where
  "mutualInclusion st this pipeline =
     (case pipeline of
        [] \<Rightarrow> Some False
      | current # rest \<Rightarrow>
          if this \<in> set (references (st current)) then Some True
          else mutualInclusion st this (rest @ references (st current)))"

definition addAsReferenceTo ::
  "('tree, 'sym, 'diag, 'voc) store \<Rightarrow> nat \<Rightarrow> nat \<Rightarrow> ('tree, 'sym, 'diag, 'voc) store option" where
  "addAsReferenceTo st this context =
     (case mutualInclusion st this [context] of
        None \<Rightarrow> None
      | Some True \<Rightarrow> Some st
      | Some False \<Rightarrow>
          (let st1 = st(context := (st context)\<lparr>references := references (st context) @ [this]\<rparr>)
           in Some (st1(this := (st1 this)
                      \<lparr>symbolTable := addDependencies (TableOf context) (symbolTable (st1 this))\<rparr>))))"

text \<open>
  \<open>getReferenceCount\<close> calls itself on every referencing context. The first argument
  bounds the depth of the call stack: \<open>None\<close> is a recursion deeper than the bound,
  \<open>Some (Inl e)\<close> an exception of the semantic pass, \<open>Some (Inr n)\<close> the count returned.
\<close>

fun getReferenceCount ::
  "('tree, 'sym, 'diag) frontend \<Rightarrow> nat \<Rightarrow> ('tree, 'sym, 'diag, 'voc) store \<Rightarrow> nat \<Rightarrow> string
   \<Rightarrow> ('tree, 'sym, 'diag, 'voc) store \<times> (exn + nat) option" where
  "getReferenceCount fe 0 st this symbol = (st, None)"
| "getReferenceCount fe (Suc depth) st this symbol =
     (case runSemanticAnalysisIfNeeded fe (st this) of
        (Some e, c) \<Rightarrow> (st(this := c), Some (Inl e))
      | (None, c) \<Rightarrow>
          foldl (\<lambda>(st1, result) reference.
                   case result of
                     Some (Inr n) \<Rightarrow>
                       (case getReferenceCount fe depth st1 reference symbol of
                          (st2, Some (Inr k)) \<Rightarrow> (st2, Some (Inr (n + k)))
                        | (st2, other) \<Rightarrow> (st2, other))
                   | _ \<Rightarrow> (st1, result))
                (st(this := c), Some (Inr (symbolTable_getReferenceCount fe (symbolTable c) symbol)))
                (references c))"

subsection \<open>The constructor and the global symbol table\<close>

datatype symbol_class =
    ImportSymbol | BuiltInTokenSymbol | VirtualTokenSymbol | FragmentTokenSymbol | TokenSymbol
  | BuiltInModeSymbol | LexerModeSymbol | BuiltInChannelSymbol | TokenChannelSymbol | RuleSymbol
  | ActionSymbol | NamedActionSymbol | LexerActionSymbol | PredicateSymbol | OperatorSymbol
  | TokenReferenceSymbol | RuleReferenceSymbol

record Symbol =
  symbol_class :: symbol_class
  symbol_name :: string

text \<open>
  Modelled from the spec: the class \<open>ContextSymbolTable\<close> is not among the sources, so its
  methods \<open>resolve\<close> and \<open>addNewSymbolOfType\<close> follow the spec's contract of the symbol
  table. \<open>resolve\<close> searches the local table first and then the dependencies; the global
  table is created without dependencies and never gets one, so on it the local lookup,
  which is what is modelled, is the whole search. \<open>addNewSymbolOfType\<close> appends a symbol
  to the insertion-ordered collection and rejects a duplicate name unless the table
  allows duplicates.
\<close>

definition resolve :: "Symbol ContextSymbolTable \<Rightarrow> string \<Rightarrow> Symbol option" where
  "resolve tab n = find (\<lambda>s. symbol_name s = n) (symbols tab)"

definition addNewSymbolOfType ::
  "symbol_class \<Rightarrow> string \<Rightarrow> Symbol ContextSymbolTable \<Rightarrow> exn + Symbol ContextSymbolTable" where
  "addNewSymbolOfType cls n tab =
     (if \<not> allowDuplicateSymbols tab \<and> n \<in> symbol_name ` set (symbols tab)
      then Inl DuplicateSymbolError
      else Inr (tab\<lparr>symbols := symbols tab @ [\<lparr>symbol_class = cls, symbol_name = n\<rparr>]\<rparr>))"

text \<open>The static initialiser of \<open>globalSymbols\<close>.\<close>

definition globalSymbols_initial :: "Symbol ContextSymbolTable" where
  "globalSymbols_initial = \<lparr>allowDuplicateSymbols = False, symbols = [], dependencies = []\<rparr>"

text \<open>The guarded block of the constructor; an exception of an insertion ends it.\<close>

definition initGlobalSymbols :: "Symbol ContextSymbolTable \<Rightarrow> exn + Symbol ContextSymbolTable" where
  "initGlobalSymbols g =
     (if resolve g ''EOF'' = None then
        (case addNewSymbolOfType BuiltInChannelSymbol ''DEFAULT_TOKEN_CHANNEL'' g of
           Inl e \<Rightarrow> Inl e
         | Inr g1 \<Rightarrow>
        (case addNewSymbolOfType BuiltInChannelSymbol ''HIDDEN'' g1 of
           Inl e \<Rightarrow> Inl e
         | Inr g2 \<Rightarrow>
        (case addNewSymbolOfType BuiltInTokenSymbol ''EOF'' g2 of
           Inl e \<Rightarrow> Inl e
         | Inr g3 \<Rightarrow> addNewSymbolOfType BuiltInModeSymbol ''DEFAULT_MODE'' g3)))
      else Inr g)"

text \<open>The field initialisers and the first two statements of the constructor.\<close>

definition initial_fields :: "'voc host \<Rightarrow> string \<Rightarrow> ('tree, 'sym, 'diag, 'voc) SourceContext" where
  "initial_fields h file =
               \<lparr>fileName = file,
                sourceId = path_basename h file (path_extname h file),
                symbolTable = \<lparr>allowDuplicateSymbols = True, symbols = [], dependencies = []\<rparr>,
                info = \<lparr>grammar_type = Unknown, unreferencedRules = [], import_list = []\<rparr>,
                diagnostics = [],
                references = [],
                rrdScripts = None,
                semanticAnalysisDone = False,
                tokenStream = None,
                parser = None,
                grammarLexerData = None,
                grammarLexerRuleMap = Map.empty,
                grammarParserData = None,
                grammarParserRuleMap = Map.empty,
                tree = None,
                trace = []\<rparr>"

text \<open>The constructor gives the new context and the global table as it leaves it.\<close>

definition new_SourceContext ::
  "'voc host \<Rightarrow> string \<Rightarrow> Symbol ContextSymbolTable
   \<Rightarrow> exn + ('tree, 'sym, 'diag, 'voc) SourceContext \<times> Symbol ContextSymbolTable" where
  "new_SourceContext h file g =
     (case initGlobalSymbols g of
        Inl e \<Rightarrow> Inl e
      | Inr g1 \<Rightarrow> Inr (initial_fields h file, g1))"

text \<open>Constructing one context per file name, in order, on the same global table.\<close>

fun construct_all ::
  "'voc host \<Rightarrow> string list \<Rightarrow> Symbol ContextSymbolTable
   \<Rightarrow> exn + ('tree, 'sym, 'diag, 'voc) SourceContext list \<times> Symbol ContextSymbolTable" where
  "construct_all h [] g = Inr ([], g)"
| "construct_all h (file # files) g =
     (case new_SourceContext h file g of
        Inl e \<Rightarrow> Inl e
      | Inr (c, g1) \<Rightarrow>
          (case construct_all h files g1 of
             Inl e \<Rightarrow> Inl e
           | Inr (cs, g2) \<Rightarrow> Inr (c # cs, g2)))"

definition builtin_symbols :: "Symbol list" where
  "builtin_symbols =
     [\<lparr>symbol_class = BuiltInChannelSymbol, symbol_name = ''DEFAULT_TOKEN_CHANNEL''\<rparr>,
      \<lparr>symbol_class = BuiltInChannelSymbol, symbol_name = ''HIDDEN''\<rparr>,
      \<lparr>symbol_class = BuiltInTokenSymbol, symbol_name = ''EOF''\<rparr>,
      \<lparr>symbol_class = BuiltInModeSymbol, symbol_name = ''DEFAULT_MODE''\<rparr>]"

subsection \<open>Requests to one context\<close>




subsection \<open>The two parser runs of parse\<close>

text \<open>
  Names for what \<open>parse\<close> computes on a context whose stream holds the text \<open>src\<close>: the first
  run of the parser and the second one, and the context after each (the fields reset,
  the run logged, the diagnostics of the run, the stream where the run left it).
\<close>

definition fast_run :: "('tree, 'sym, 'diag) frontend \<Rightarrow> string \<Rightarrow> (exn + 'tree) \<times> 'diag list \<times> nat" where
  "fast_run fe src = grammarSpec fe (Some BailErrorStrategy) SLL src 0"

definition general_run :: "('tree, 'sym, 'diag) frontend \<Rightarrow> string \<Rightarrow> (exn + 'tree) \<times> 'diag list \<times> nat" where
  "general_run fe src = grammarSpec fe (Some DefaultErrorStrategy) LL src 0"

definition after_fast ::
  "('tree, 'sym, 'diag) frontend \<Rightarrow> string \<Rightarrow> ('tree, 'sym, 'diag, 'voc) SourceContext
   \<Rightarrow> ('tree, 'sym, 'diag, 'voc) SourceContext" where
  "after_fast fe src c =
     (parse_reset src c)
       \<lparr>trace := trace c @ [GrammarSpecRun (Some BailErrorStrategy) SLL 0],
        diagnostics := fst (snd (fast_run fe src)),
        tokenStream := Some (src, snd (snd (fast_run fe src)))\<rparr>"

definition after_general ::
  "('tree, 'sym, 'diag) frontend \<Rightarrow> string \<Rightarrow> ('tree, 'sym, 'diag, 'voc) SourceContext
   \<Rightarrow> ('tree, 'sym, 'diag, 'voc) SourceContext" where
  "after_general fe src c =
     (after_fast fe src c)
       \<lparr>parser := Some \<lparr>errorHandler = Some DefaultErrorStrategy, predictionMode = LL\<rparr>,
        trace := trace c @ [GrammarSpecRun (Some BailErrorStrategy) SLL 0,
                            GrammarSpecRun (Some DefaultErrorStrategy) LL 0],
        diagnostics := fst (snd (fast_run fe src)) @ fst (snd (general_run fe src)),
        tokenStream := Some (src, snd (snd (general_run fe src)))\<rparr>"



text \<open>A context can run its semantic pass without throwing when it has a tree or has
  run the pass already.\<close>

definition analysable :: "('tree, 'sym, 'diag, 'voc) SourceContext \<Rightarrow> bool" where
  "analysable c = (tree c \<noteq> None \<or> semanticAnalysisDone c)"


section \<open>The automaton graph of a rule\<close>

subsection \<open>Strings of numbers and characters\<close>

text \<open>\<open>Number.toString()\<close> in base 10 and in base 16 with capital letters.\<close>

fun toString_nat :: "nat \<Rightarrow> jsstring" where
  "toString_nat n =
     (if n < 10 then [48 + n]
      else toString_nat (n div 10) @ [48 + n mod 10])"

declare toString_nat.simps [simp del]

definition toString_int :: "int \<Rightarrow> jsstring" where
  "toString_int i = (if i < 0 then utf16 ''-'' @ toString_nat (nat (- i)) else toString_nat (nat i))"

definition hexDigit :: "nat \<Rightarrow> code_unit" where
  "hexDigit d = (if d < 10 then 48 + d else 55 + d)"

fun toHexUpper :: "nat \<Rightarrow> jsstring" where
  "toHexUpper n =
     (if n < 16 then [hexDigit n]
      else toHexUpper (n div 16) @ [hexDigit (n mod 16)])"

declare toHexUpper.simps [simp del]

text \<open>The label of an epsilon link is the Greek small letter epsilon, U+03B5.\<close>

definition epsilon_label :: jsstring where
  "epsilon_label = [949]"

text \<open>\<open>characterRepresentation\<close> and \<open>intervalSetToStrings\<close>: a quoted character for the
  printable code points up to 255, an escape otherwise, \<open>EOF\<close> below zero.\<close>

definition characterRepresentation :: "int \<Rightarrow> jsstring" where
  "characterRepresentation ch =
     (if ch < 0 then utf16 ''EOF''
      else if (33 \<le> ch \<and> ch \<le> 127) \<or> (161 \<le> ch \<and> ch \<le> 255)
           then [39, nat ch, 39]
      else [92, 117] @ toHexUpper (nat ch))"

definition intervalSetToStrings :: "(int \<times> int) list \<Rightarrow> jsstring list" where
  "intervalSetToStrings intervals =
     map (\<lambda>(a, b). characterRepresentation a
                     @ (if a \<noteq> b then utf16 '' - '' @ characterRepresentation b else []))
         intervals"

text \<open>\<open>IntervalSet.toArray()\<close>: every member of every interval.\<close>

definition toArray :: "(int \<times> int) list \<Rightarrow> int list" where
  "toArray intervals = concat (map (\<lambda>(a, b). [a..b]) intervals)"

subsection \<open>Nodes, links and the state of the traversal\<close>

record ATNNode =
  node_id :: int
  node_name :: "jsstring option"
  node_type :: nat

record ATNLink =
  source :: nat
  link_target :: nat
  link_type :: TransitionType
  labels :: "jsstring list"

record ATNGraphData =
  graph_links :: "ATNLink list"
  graph_nodes :: "ATNNode list"

text \<open>
  The locals of \<open>getATNGraph\<close> that the loop changes. States are named by their numbers, as
  the set \<open>seenStates\<close> of state objects cannot hold two states of one number.
  \<open>expanded\<close> is not in the source: it lists the states the loop has taken from the
  pipeline, in order.
\<close>

record extraction =
  nodes :: "ATNNode list"
  links :: "ATNLink list"
  stateToIndex :: "nat \<rightharpoonup> nat"
  currentRuleIndex :: int
  seenStates :: "nat set"
  pipeline :: "nat list"
  expanded :: "nat list"

text \<open>A state object by its number. The source holds object references, which always
  point at a state; a number outside the automaton stands for \<open>undefined\<close>.\<close>

definition stateAt :: "ATN \<Rightarrow> nat \<Rightarrow> ATNState option" where
  "stateAt a n = (if n < length (states a) then Some (states a ! n) else None)"

definition nth_opt :: "'a list \<Rightarrow> nat \<Rightarrow> 'a option" where
  "nth_opt xs i = (if i < length xs then Some (xs ! i) else None)"

text \<open>The node pushed for a state under the identifier \<open>ident\<close>, and the node of type 13
  pushed for the rule a state calls, each registered in \<open>stateToIndex\<close>.\<close>

definition withNode :: "nat \<Rightarrow> ATNState \<Rightarrow> extraction \<Rightarrow> extraction" where
  "withNode ident state g =
     g\<lparr>stateToIndex := (stateToIndex g)(ident \<mapsto> length (nodes g)),
       nodes := nodes g @ [\<lparr>node_id = int ident, node_name = Some (toString_nat ident),
                            node_type = stateTypeValue (stateType state)\<rparr>]\<rparr>"

definition withRuleNode :: "jsstring list \<Rightarrow> nat \<Rightarrow> ATNState \<Rightarrow> extraction \<Rightarrow> extraction" where
  "withRuleNode names marker callee g =
     g\<lparr>stateToIndex := (stateToIndex g)(marker \<mapsto> length (nodes g)),
       nodes := nodes g @ [\<lparr>node_id = currentRuleIndex g, node_name = nth_opt names (ruleIndex callee),
                            node_type = 13\<rparr>],
       currentRuleIndex := currentRuleIndex g - 1\<rparr>"

text \<open>
  \<open>ensureATNNode(id, state)\<close>: the index registered for \<open>id\<close>, or a new node for the state,
  and with it a second node of type 13 when the state's only transition enters a rule.
  The second node is registered under the product of the two state numbers.
\<close>

definition ensureATNNode ::
  "ATN \<Rightarrow> jsstring list \<Rightarrow> nat \<Rightarrow> nat \<Rightarrow> extraction \<Rightarrow> exn + nat \<times> extraction" where
  "ensureATNNode a names ident stateNumber g =
     (case stateToIndex g ident of
        Some index \<Rightarrow> Inr (index, g)
      | None \<Rightarrow>
          (case stateAt a stateNumber of
             None \<Rightarrow> Inl TypeError
           | Some state \<Rightarrow>
               (case transitions state of
                  [tr] \<Rightarrow>
                    (case stateAt a (target tr) of
                       None \<Rightarrow> Inl TypeError
                     | Some callee \<Rightarrow>
                         if stateType callee = RULE_START then
                           Inr (length (nodes g),
                                withRuleNode names (stateNumber * target tr) callee
                                  (withNode ident state g))
                         else Inr (length (nodes g), withNode ident state g))
                | _ \<Rightarrow> Inr (length (nodes g), withNode ident state g))))"

text \<open>The rule start state entered by the only transition of a state, if that is so.\<close>

definition calledRule :: "ATN \<Rightarrow> ATNState \<Rightarrow> (nat \<times> ATNState) option" where
  "calledRule a state =
     (case transitions state of
        [tr] \<Rightarrow>
          (case stateAt a (target tr) of
             None \<Rightarrow> None
           | Some callee \<Rightarrow> if stateType callee = RULE_START then Some (target tr, callee) else None)
      | _ \<Rightarrow> None)"

text \<open>The labels of the link for a transition: the \<open>switch\<close> on the serialization type.\<close>

fun link_labels :: "bool \<Rightarrow> ('voc \<Rightarrow> int \<Rightarrow> jsstring) \<Rightarrow> 'voc \<Rightarrow> Transition \<Rightarrow> jsstring list" where
  "link_labels isLexerRule getDisplayName voc (ActionTransition t actionIndex) =
     (let index = (if actionIndex = 65535 then - 1 else int actionIndex)
      in if isLexerRule then [utf16 ''<lexer action '' @ toString_int index @ utf16 ''>'']
         else [utf16 ''<parser action '' @ toString_int index @ utf16 ''>''])"
| "link_labels isLexerRule getDisplayName voc (PredicateTransition t predIndex) =
     [utf16 ''<predicate '' @ toString_nat predIndex @ utf16 ''>'']"
| "link_labels isLexerRule getDisplayName voc (PrecedencePredicateTransition t precedence) =
     [utf16 ''<precedence predicate '' @ toString_int precedence @ utf16 ''>'']"
| "link_labels isLexerRule getDisplayName voc tr =
     (if isEpsilon tr then [epsilon_label]
      else (case label tr of
              None \<Rightarrow> []
            | Some intervals \<Rightarrow>
                if isLexerRule then intervalSetToStrings intervals
                else map (getDisplayName voc) (toArray intervals)))"

text \<open>The end of the loop body: the next state is pushed unless it was seen.\<close>

definition pushState :: "nat \<Rightarrow> extraction \<Rightarrow> extraction" where
  "pushState nextState g =
     (if nextState \<in> seenStates g then g
      else g\<lparr>seenStates := insert nextState (seenStates g), pipeline := pipeline g @ [nextState]\<rparr>)"

definition addLink :: "ATNLink \<Rightarrow> extraction \<Rightarrow> extraction" where
  "addLink l g = g\<lparr>links := links g @ [l]\<rparr>"

text \<open>
  The body of the \<open>for\<close> loop for one transition of the state \<open>stateNumber\<close>, whose node
  has the index \<open>sourceIndex\<close>: the link to the target, for a rule call the link back from
  the target's node to the follow state, and the next state pushed unless seen.
\<close>

definition followTransition ::
  "bool \<Rightarrow> ('voc \<Rightarrow> int \<Rightarrow> jsstring) \<Rightarrow> 'voc \<Rightarrow> ATN \<Rightarrow> jsstring list \<Rightarrow> nat \<Rightarrow> nat
   \<Rightarrow> extraction \<Rightarrow> Transition \<Rightarrow> exn + extraction" where
  "followTransition isLexerRule getDisplayName voc a names stateNumber sourceIndex g tr =
     (case stateAt a (target tr) of
        None \<Rightarrow> Inl TypeError
      | Some targetState \<Rightarrow>
          (let transitsToRule = (stateType targetState = RULE_START);
               marker = target tr * (if transitsToRule then stateNumber else 1)
           in case ensureATNNode a names marker (target tr) g of
                Inl e \<Rightarrow> Inl e
              | Inr (targetIndex, g1) \<Rightarrow>
                  (let g2 = addLink \<lparr>source = sourceIndex, link_target = targetIndex,
                                     link_type = serializationType tr,
                                     labels = link_labels isLexerRule getDisplayName voc tr\<rparr> g1
                   in if transitsToRule then
                        (case followState tr of
                           None \<Rightarrow> Inl TypeError
                         | Some nextState \<Rightarrow>
                             (case stateAt a nextState of
                                None \<Rightarrow> Inl TypeError
                              | Some s \<Rightarrow>
                                  (case ensureATNNode a names nextState nextState g2 of
                                     Inl e \<Rightarrow> Inl e
                                   | Inr (returnIndex, g3) \<Rightarrow>
                                       Inr (pushState nextState
                                              (addLink \<lparr>source = targetIndex, link_target = returnIndex,
                                                        link_type = RULE, labels = [epsilon_label]\<rparr>
                                                 g3)))))
                      else Inr (pushState (target tr) g2))))"

fun followTransitions ::
  "bool \<Rightarrow> ('voc \<Rightarrow> int \<Rightarrow> jsstring) \<Rightarrow> 'voc \<Rightarrow> ATN \<Rightarrow> jsstring list \<Rightarrow> nat \<Rightarrow> nat
   \<Rightarrow> extraction \<Rightarrow> Transition list \<Rightarrow> exn + extraction" where
  "followTransitions isLexerRule getDisplayName voc a names stateNumber sourceIndex g [] = Inr g"
| "followTransitions isLexerRule getDisplayName voc a names stateNumber sourceIndex g (tr # trs) =
     (case followTransition isLexerRule getDisplayName voc a names stateNumber sourceIndex g tr of
        Inl e \<Rightarrow> Inl e
      | Inr g1 \<Rightarrow> followTransitions isLexerRule getDisplayName voc a names stateNumber sourceIndex g1 trs)"

text \<open>One turn of the \<open>while\<close> loop for the state taken from the pipeline; for the stop
  state every transition is skipped.\<close>

definition expandState ::
  "bool \<Rightarrow> ('voc \<Rightarrow> int \<Rightarrow> jsstring) \<Rightarrow> 'voc \<Rightarrow> ATN \<Rightarrow> jsstring list \<Rightarrow> nat option
   \<Rightarrow> extraction \<Rightarrow> nat \<Rightarrow> exn + extraction" where
  "expandState isLexerRule getDisplayName voc a names stopState g stateNumber =
     (case stateAt a stateNumber of
        None \<Rightarrow> Inl TypeError
      | Some state \<Rightarrow>
          (case ensureATNNode a names stateNumber stateNumber (g\<lparr>expanded := expanded g @ [stateNumber]\<rparr>) of
             Inl e \<Rightarrow> Inl e
           | Inr (sourceIndex, g1) \<Rightarrow>
               if Some stateNumber = stopState then Inr g1
               else followTransitions isLexerRule getDisplayName voc a names stateNumber sourceIndex g1
                      (transitions state)))"


subsection \<open>The loop over the pipeline\<close>

text \<open>
  The loop ends because every state it pushes is a state of the automaton that was not
  seen before: the number of unseen states plus the length of the pipeline goes down
  with every turn.
\<close>

definition unseen :: "ATN \<Rightarrow> extraction \<Rightarrow> nat" where
  "unseen a g = card ({..<length (states a)} - seenStates g) + length (pipeline g)"

lemma ensureATNNode_cases:
  assumes "ensureATNNode a names ident n g = Inr (k, g1)"
  obtains (known) "stateToIndex g ident = Some k" "g1 = g"
  | (plain) state where "stateToIndex g ident = None" "stateAt a n = Some state"
      "calledRule a state = None" "k = length (nodes g)" "g1 = withNode ident state g"
  | (call) state t callee where "stateToIndex g ident = None" "stateAt a n = Some state"
      "calledRule a state = Some (t, callee)" "k = length (nodes g)"
      "g1 = withRuleNode names (n * t) callee (withNode ident state g)"
  using assms
  unfolding ensureATNNode_def calledRule_def
  by (auto split: option.splits list.splits if_splits)

lemma followTransition_cases:
  assumes "followTransition isLexerRule getDisplayName voc a names n k g tr = Inr g'"
  obtains (plain) ts ti g1 where "stateAt a (target tr) = Some ts" "stateType ts \<noteq> RULE_START"
      "ensureATNNode a names (target tr) (target tr) g = Inr (ti, g1)"
      "g' = pushState (target tr)
              (addLink \<lparr>source = k, link_target = ti, link_type = serializationType tr,
                        labels = link_labels isLexerRule getDisplayName voc tr\<rparr> g1)"
  | (call) ts ti g1 f fs ri g3 where "stateAt a (target tr) = Some ts" "stateType ts = RULE_START"
      "ensureATNNode a names (target tr * n) (target tr) g = Inr (ti, g1)"
      "followState tr = Some f" "stateAt a f = Some fs"
      "ensureATNNode a names f f
         (addLink \<lparr>source = k, link_target = ti, link_type = serializationType tr,
                   labels = link_labels isLexerRule getDisplayName voc tr\<rparr> g1) = Inr (ri, g3)"
      "g' = pushState f
              (addLink \<lparr>source = ti, link_target = ri, link_type = RULE, labels = [epsilon_label]\<rparr> g3)"
  using assms
  unfolding followTransition_def Let_def
  by (auto split: option.splits sum.splits if_splits)

lemma ensureATNNode_frame:
  assumes "ensureATNNode a names ident n g = Inr (k, g1)"
  shows "seenStates g1 = seenStates g" and "pipeline g1 = pipeline g"
    and "expanded g1 = expanded g" and "links g1 = links g"
proof -
  show "seenStates g1 = seenStates g"
    by (rule ensureATNNode_cases[OF assms]) (simp_all add: withNode_def withRuleNode_def)
  show "pipeline g1 = pipeline g"
    by (rule ensureATNNode_cases[OF assms]) (simp_all add: withNode_def withRuleNode_def)
  show "expanded g1 = expanded g"
    by (rule ensureATNNode_cases[OF assms]) (simp_all add: withNode_def withRuleNode_def)
  show "links g1 = links g"
    by (rule ensureATNNode_cases[OF assms]) (simp_all add: withNode_def withRuleNode_def)
qed

lemma stateAt_valid: "stateAt a n = Some s \<Longrightarrow> n < length (states a)"
  by (simp add: stateAt_def split: if_splits)

lemma unseen_pushState:
  assumes "n < length (states a)"
  shows "unseen a (pushState n g) = unseen a g"
proof (cases "n \<in> seenStates g")
  case True
  then show ?thesis by (simp add: pushState_def)
next
  case False
  have mem: "n \<in> {..<length (states a)} - seenStates g" using assms False by simp
  have fin: "finite ({..<length (states a)} - seenStates g)" by simp
  have eq: "{..<length (states a)} - insert n (seenStates g)
              = ({..<length (states a)} - seenStates g) - {n}" by blast
  have "card ({..<length (states a)} - seenStates g)
          = Suc (card ({..<length (states a)} - insert n (seenStates g)))"
    unfolding eq by (rule card.remove[OF fin mem])
  then show ?thesis using False by (simp add: unseen_def pushState_def)
qed

lemma unseen_frame:
  "seenStates g1 = seenStates g \<Longrightarrow> pipeline g1 = pipeline g \<Longrightarrow> unseen a g1 = unseen a g"
  by (simp add: unseen_def)

lemma unseen_addLink: "unseen a (addLink l g) = unseen a g"
  by (simp add: unseen_def addLink_def)

lemma followTransition_unseen:
  assumes "followTransition isLexerRule getDisplayName voc a names n k g tr = Inr g1"
  shows "unseen a g1 = unseen a g"
proof (rule followTransition_cases[OF assms], goal_cases)
  case (1 ts ti g2)
  from ensureATNNode_frame[OF 1(3)] have "unseen a g2 = unseen a g" by (simp add: unseen_def)
  then show ?case using 1(4) stateAt_valid[OF 1(1)] by (simp add: unseen_pushState unseen_addLink)
next
  case (2 ts ti g2 f fs ri g3)
  from ensureATNNode_frame[OF 2(3)] have a: "unseen a g2 = unseen a g" by (simp add: unseen_def)
  from ensureATNNode_frame[OF 2(6)] have "unseen a g3 = unseen a g2"
    by (simp add: unseen_def addLink_def)
  then show ?case using a 2(7) stateAt_valid[OF 2(5)] by (simp add: unseen_pushState unseen_addLink)
qed

lemma followTransitions_unseen:
  "followTransitions isLexerRule getDisplayName voc a names n k g trs = Inr g1
   \<Longrightarrow> unseen a g1 = unseen a g"
proof (induction trs arbitrary: g)
  case Nil
  then show ?case by simp
next
  case (Cons tr trs)
  then obtain g2 where g2: "followTransition isLexerRule getDisplayName voc a names n k g tr = Inr g2"
    and rest: "followTransitions isLexerRule getDisplayName voc a names n k g2 trs = Inr g1"
    by (cases "followTransition isLexerRule getDisplayName voc a names n k g tr") auto
  from Cons.IH[OF rest] followTransition_unseen[OF g2] show ?case by simp
qed

lemma expandState_cases:
  assumes "expandState isLexerRule getDisplayName voc a names stopState g n = Inr g'"
  obtains (stop) state k where "stateAt a n = Some state" "Some n = stopState"
      "ensureATNNode a names n n (g\<lparr>expanded := expanded g @ [n]\<rparr>) = Inr (k, g')"
  | (follow) state k g1 where "stateAt a n = Some state" "Some n \<noteq> stopState"
      "ensureATNNode a names n n (g\<lparr>expanded := expanded g @ [n]\<rparr>) = Inr (k, g1)"
      "followTransitions isLexerRule getDisplayName voc a names n k g1 (transitions state) = Inr g'"
  using assms
  unfolding expandState_def
  by (auto split: option.splits sum.splits if_splits)

lemma expandState_unseen:
  assumes "expandState isLexerRule getDisplayName voc a names stopState g n = Inr g1"
  shows "unseen a g1 = unseen a g"
proof (rule expandState_cases[OF assms], goal_cases)
  case (1 state k)
  from ensureATNNode_frame[OF 1(3)] show ?case by (simp add: unseen_def)
next
  case (2 state k g2)
  from ensureATNNode_frame[OF 2(3)] have "unseen a g2 = unseen a g" by (simp add: unseen_def)
  with followTransitions_unseen[OF 2(4)] show ?case by simp
qed

function traverse ::
  "bool \<Rightarrow> ('voc \<Rightarrow> int \<Rightarrow> jsstring) \<Rightarrow> 'voc \<Rightarrow> ATN \<Rightarrow> jsstring list \<Rightarrow> nat option
   \<Rightarrow> extraction \<Rightarrow> exn + extraction" where
  "traverse isLexerRule getDisplayName voc a names stopState g =
     (case pipeline g of
        [] \<Rightarrow> Inr g
      | stateNumber # rest \<Rightarrow>
          (case expandState isLexerRule getDisplayName voc a names stopState (g\<lparr>pipeline := rest\<rparr>)
                  stateNumber of
             Inl e \<Rightarrow> Inl e
           | Inr g1 \<Rightarrow> traverse isLexerRule getDisplayName voc a names stopState g1))"
  by pat_completeness auto
termination
proof (relation "measure (\<lambda>(isLexerRule, getDisplayName, voc, a, names, stopState, g). unseen a g)",
    goal_cases)
  case 1
  show ?case by simp
next
  case (2 isLexerRule getDisplayName voc a names stopState g stateNumber rest g1)
  have "unseen a g1 = unseen a (g\<lparr>pipeline := rest\<rparr>)"
    by (rule expandState_unseen[OF 2(2)])
  also have "\<dots> < unseen a g" using 2(1) by (simp add: unseen_def)
  finally show ?case by simp
qed

declare traverse.simps [simp del]

subsection \<open>getATNGraph\<close>

text \<open>
  \<open>rule[0] === rule[0].toUpperCase()\<close>: \<open>rule[0]\<close> is the string of the first code unit of
  the rule name; on the empty string it is \<open>undefined\<close> and the method call throws.
  \<open>String.prototype.toUpperCase\<close> belongs to the runtime and is a parameter, a function
  from strings to strings of which nothing is assumed (the upper case of one code unit
  can be a longer string).
\<close>

definition isLexerRule_of :: "(jsstring \<Rightarrow> jsstring) \<Rightarrow> jsstring \<Rightarrow> exn + bool" where
  "isLexerRule_of toUpperCase rule =
     (case rule of [] \<Rightarrow> Inl TypeError | ch # _ \<Rightarrow> Inr ([ch] = toUpperCase [ch]))"

text \<open>The traversal from the start state of the rule with the given index. An index
  without a start state gives \<open>undefined\<close>, whose state number the loop cannot read.\<close>

definition extractGraph ::
  "bool \<Rightarrow> ('voc \<Rightarrow> int \<Rightarrow> jsstring) \<Rightarrow> 'voc InterpreterData \<Rightarrow> nat \<Rightarrow> exn + extraction" where
  "extractGraph isLexerRule getDisplayName data index =
     (case nth_opt (ruleToStartState (atn data)) index of
        None \<Rightarrow> Inl TypeError
      | Some startState \<Rightarrow>
          traverse isLexerRule getDisplayName (vocabulary data) (atn data) (ruleNames data)
            (nth_opt (ruleToStopState (atn data)) index)
            \<lparr>nodes = [], links = [], stateToIndex = Map.empty, currentRuleIndex = - 1,
             seenStates = {startState}, pipeline = [startState], expanded = []\<rparr>)"

definition getATNGraph ::
  "(jsstring \<Rightarrow> jsstring) \<Rightarrow> ('voc \<Rightarrow> int \<Rightarrow> jsstring) \<Rightarrow> ('tree, 'sym, 'diag, 'voc) SourceContext
   \<Rightarrow> jsstring \<Rightarrow> exn + ATNGraphData option" where
  "getATNGraph toUpperCase getDisplayName c rule =
     (case isLexerRule_of toUpperCase rule of
        Inl e \<Rightarrow> Inl e
      | Inr isLexerRule \<Rightarrow>
          (case (if isLexerRule then grammarLexerData c else grammarParserData c) of
             None \<Rightarrow> Inr None
           | Some data \<Rightarrow>
               (case (if isLexerRule then grammarLexerRuleMap c else grammarParserRuleMap c) rule of
                  None \<Rightarrow> Inr None
                | Some index \<Rightarrow>
                    (case extractGraph isLexerRule getDisplayName data index of
                       Inl e \<Rightarrow> Inl e
                     | Inr g \<Rightarrow> Inr (Some \<lparr>graph_links = links g, graph_nodes = nodes g\<rparr>)))))"

subsection \<open>What the claims about the traversal speak of\<close>

text \<open>The state the loop goes on with after a transition: the follow state of a rule
  call, the target otherwise.\<close>

definition nextState :: "ATN \<Rightarrow> Transition \<Rightarrow> nat option" where
  "nextState a tr =
     (case stateAt a (target tr) of
        None \<Rightarrow> None
      | Some targetState \<Rightarrow> if stateType targetState = RULE_START then followState tr else Some (target tr))"

text \<open>The states of a rule: those reached from its start state along transitions that do
  not leave its stop state.\<close>

inductive_set reachable :: "ATN \<Rightarrow> nat \<Rightarrow> nat option \<Rightarrow> nat set"
  for a :: ATN and startState :: nat and stopState :: "nat option" where
    start: "startState \<in> reachable a startState stopState"
  | step: "s \<in> reachable a startState stopState \<Longrightarrow> Some s \<noteq> stopState \<Longrightarrow> stateAt a s = Some state
           \<Longrightarrow> tr \<in> set (transitions state) \<Longrightarrow> nextState a tr = Some n
           \<Longrightarrow> n \<in> reachable a startState stopState"

text \<open>In the automata that ANTLR builds, a state of a rule from which a rule is called
  has the rule transition as its only transition: \<open>callsAlone\<close> says so of one state,
  \<open>callSitesSingle\<close> of the states of a rule and \<open>callSitesSingleEverywhere\<close> of all the
  states of an automaton.\<close>

definition callsAlone :: "ATN \<Rightarrow> ATNState \<Rightarrow> bool" where
  "callsAlone a state =
     list_all (\<lambda>tr. case stateAt a (target tr) of
                       None \<Rightarrow> True
                     | Some targetState \<Rightarrow>
                         stateType targetState \<noteq> RULE_START \<or> transitions state = [tr])
              (transitions state)"

definition callSitesSingle :: "ATN \<Rightarrow> nat \<Rightarrow> nat option \<Rightarrow> bool" where
  "callSitesSingle a startState stopState =
     (\<forall>n \<in> reachable a startState stopState. \<forall>state. stateAt a n = Some state \<longrightarrow> callsAlone a state)"

definition callSitesSingleEverywhere :: "ATN \<Rightarrow> bool" where
  "callSitesSingleEverywhere a = list_all (callsAlone a) (states a)"

text \<open>The nodes of type 13 stand for called rules; the others stand for states.\<close>

definition ruleNodes :: "ATNNode list \<Rightarrow> ATNNode list" where
  "ruleNodes ns = filter (\<lambda>nd. node_type nd = 13) ns"

definition stateNodes :: "ATNNode list \<Rightarrow> ATNNode list" where
  "stateNodes ns = filter (\<lambda>nd. node_type nd \<noteq> 13) ns"

text \<open>The identifiers under which the nodes of states were made.\<close>

definition stateNodeIds :: "extraction \<Rightarrow> nat list" where
  "stateNodeIds g = map (\<lambda>nd. nat (node_id nd)) (stateNodes (nodes g))"

text \<open>The states the loop goes on with from the state \<open>n\<close>, in the order of its transitions;
  none from the stop state.\<close>

definition nextStates :: "ATN \<Rightarrow> nat option \<Rightarrow> nat \<Rightarrow> nat list" where
  "nextStates a stopState n =
     (if Some n = stopState then []
      else case stateAt a n of
             None \<Rightarrow> []
           | Some state \<Rightarrow> List.map_filter (nextState a) (transitions state))"

text \<open>
  The order of a first-in first-out worklist that takes every state once: \<open>enqueue\<close> puts a
  state at the end of a list that does not hold it, and \<open>discovered\<close> lists the members of
  a list once each, in the order of their first occurrences.
\<close>

definition enqueue :: "nat \<Rightarrow> nat list \<Rightarrow> nat list" where
  "enqueue x xs = (if x \<in> set xs then xs else xs @ [x])"

definition discovered :: "nat list \<Rightarrow> nat list" where
  "discovered xs = fold enqueue xs []"


subsection \<open>The invariant of the loop\<close>

text \<open>The states taken from the pipeline and those waiting in it are all different, and
  together they are the states seen.\<close>

definition queued :: "extraction \<Rightarrow> bool" where
  "queued g = (distinct (expanded g @ pipeline g) \<and> seenStates g = set (expanded g) \<union> set (pipeline g))"

text \<open>The states the loop pushes when it expands the state \<open>n\<close>.\<close>

definition succs :: "ATN \<Rightarrow> nat option \<Rightarrow> nat \<Rightarrow> nat set" where
  "succs a stopState n =
     (if Some n = stopState then {}
      else {nx. \<exists>state tr. stateAt a n = Some state \<and> tr \<in> set (transitions state)
                          \<and> nextState a tr = Some nx})"

text \<open>The identifier of the rule node that goes with a state calling a rule.\<close>

definition markerOf :: "ATN \<Rightarrow> nat \<Rightarrow> nat option" where
  "markerOf a s =
     (case stateAt a s of
        None \<Rightarrow> None
      | Some state \<Rightarrow> (case calledRule a state of None \<Rightarrow> None | Some (t, callee) \<Rightarrow> Some (s * t)))"

text \<open>
  Every node of a state is charged to a state of its own: the state of that number, or
  the calling state whose product with the called start state is the node's identifier.
  A state that has the node of its own number has its rule node registered as well.
\<close>

definition owns :: "ATN \<Rightarrow> extraction \<Rightarrow> nat \<Rightarrow> nat \<Rightarrow> bool" where
  "owns a g owner key =
     (owner \<in> dom (stateToIndex g)
      \<and> (owner = key \<or> markerOf a owner = Some key)
      \<and> (owner = key \<longrightarrow> (\<forall>m. markerOf a key = Some m \<longrightarrow> m \<in> dom (stateToIndex g))))"

definition charged :: "ATN \<Rightarrow> nat set \<Rightarrow> extraction \<Rightarrow> bool" where
  "charged a S g =
     (distinct (stateNodeIds g) \<and> set (stateNodeIds g) \<subseteq> dom (stateToIndex g)
      \<and> (\<exists>f. inj_on f (set (stateNodeIds g))
              \<and> (\<forall>k \<in> set (stateNodeIds g). f k \<in> S \<and> owns a g (f k) k)))"

text \<open>What holds after every turn of the loop: the states seen are states of the rule
  and include the successors of every state expanded; and, for the count of the nodes,
  the nodes of states are charged to the states seen.\<close>

definition explored :: "ATN \<Rightarrow> nat \<Rightarrow> nat option \<Rightarrow> extraction \<Rightarrow> bool" where
  "explored a startState stopState g =
     (queued g \<and> startState \<in> seenStates g
      \<and> seenStates g \<subseteq> reachable a startState stopState
      \<and> (\<forall>s \<in> set (expanded g). succs a stopState s \<subseteq> seenStates g))"

definition traversal :: "ATN \<Rightarrow> nat \<Rightarrow> nat option \<Rightarrow> extraction \<Rightarrow> bool" where
  "traversal a startState stopState g =
     (explored a startState stopState g \<and> charged a (seenStates g) g)"

text \<open>The states taken from the pipeline followed by those waiting in it are the states
  seen, in the order in which the loop reached them first.\<close>

definition worklist :: "extraction \<Rightarrow> nat list" where
  "worklist g = expanded g @ pipeline g"

definition inOrder :: "ATN \<Rightarrow> nat \<Rightarrow> nat option \<Rightarrow> extraction \<Rightarrow> bool" where
  "inOrder a startState stopState g =
     (seenStates g = set (worklist g)
      \<and> worklist g = discovered (startState # concat (map (nextStates a stopState) (expanded g))))"


section \<open>Sentence generation\<close>

text \<open>
  The class \<open>SentenceGenerator\<close> is not among the sources: its constructor and its method
  \<open>generate\<close> are parameters, each of which may throw; \<open>generate\<close> hands on the state of
  the generator. The options carry \<open>count\<close> and \<open>actionFile\<close>, both optional.
\<close>

record 'gen generator_api =
  newSentenceGenerator :: "string option \<Rightarrow> exn + 'gen"
  generate :: "'gen \<Rightarrow> nat option \<Rightarrow> (exn + jsstring) \<times> 'gen"

text \<open>A JavaScript number is not-a-number, an infinity or a finite value; every finite
  double is a rational number.\<close>

datatype number = NaN | PositiveInfinity | NegativeInfinity | Finite rat

record SentenceGenerationOptions =
  count :: "number option"
  actionFile :: "string option"

text \<open>What the callback receives as its first argument: a sentence, or in the \<open>catch\<close>
  block the value that was thrown.\<close>

datatype callback_argument = Sentence jsstring | Thrown exn

text \<open>
  The callback is a function of the caller, which may throw itself. A call is logged
  with its two arguments before the callback runs.
\<close>

type_synonym callback = "callback_argument \<Rightarrow> nat \<Rightarrow> exn option"

type_synonym calls = "(callback_argument \<times> nat) list"

text \<open>\<open>Math.max\<close> of two numbers: not-a-number when one of them is.\<close>

fun max_number :: "number \<Rightarrow> number \<Rightarrow> number" where
  "max_number NaN y = NaN"
| "max_number x NaN = NaN"
| "max_number PositiveInfinity y = PositiveInfinity"
| "max_number x PositiveInfinity = PositiveInfinity"
| "max_number NegativeInfinity y = y"
| "max_number x NegativeInfinity = x"
| "max_number (Finite a) (Finite b) = Finite (max a b)"

text \<open>\<open>Math.max(options.count ?? 1, 1)\<close>.\<close>

definition sentence_count :: "SentenceGenerationOptions \<Rightarrow> number" where
  "sentence_count options = max_number (case count options of None \<Rightarrow> Finite 1 | Some n \<Rightarrow> n) (Finite 1)"

text \<open>
  The loop variable \<open>i\<close> is a number that starts at 0 and holds whole numbers only.
  \<open>i < count\<close> is false when the count is not a number. \<open>++i\<close> adds one, exactly up to
  \<open>2\<^sup>5\<^sup>3\<close>; there the sum is rounded to \<open>2\<^sup>5\<^sup>3\<close> again.
\<close>

fun below :: "nat \<Rightarrow> number \<Rightarrow> bool" where
  "below i NaN = False"
| "below i PositiveInfinity = True"
| "below i NegativeInfinity = False"
| "below i (Finite q) = (of_nat i < q)"

definition increment :: "nat \<Rightarrow> nat" where
  "increment i = (if i = 2 ^ 53 then i else i + 1)"

text \<open>
  The \<open>for\<close> loop inside the \<open>try\<close>, from the index \<open>i\<close> on. When it ends it gives the
  exception that left it, if any, and the calls made; \<open>None\<close> says that it does not end.
\<close>

partial_function (option) generate_loop ::
  "'gen generator_api \<Rightarrow> callback \<Rightarrow> nat option \<Rightarrow> number \<Rightarrow> 'gen \<Rightarrow> nat \<Rightarrow> calls
   \<Rightarrow> (exn option \<times> calls) option" where
  "generate_loop api cb start n gen i made =
     (if below i n then
        (case generate api gen start of
           (Inl e, gen1) \<Rightarrow> Some (Some e, made)
         | (Inr sentence, gen1) \<Rightarrow>
             (case cb (Sentence sentence) i of
                Some e \<Rightarrow> Some (Some e, made @ [(Sentence sentence, i)])
              | None \<Rightarrow> generate_loop api cb start n gen1 (increment i) (made @ [(Sentence sentence, i)])))
      else Some (None, made))"

text \<open>The \<open>try\<close> with its \<open>catch\<close>: whatever is thrown inside goes to the callback with the
  index 0; what the callback throws there leaves the method.\<close>

definition generate_all ::
  "'gen generator_api \<Rightarrow> callback \<Rightarrow> SentenceGenerationOptions \<Rightarrow> nat option
   \<Rightarrow> (exn option \<times> calls) option" where
  "generate_all api cb options start =
     (case (case newSentenceGenerator api (actionFile options) of
              Inl e \<Rightarrow> Some (Some e, [])
            | Inr gen \<Rightarrow> generate_loop api cb start (sentence_count options) gen 0 []) of
        None \<Rightarrow> None
      | Some (None, made) \<Rightarrow> Some (None, made)
      | Some (Some e, made) \<Rightarrow> Some (cb (Thrown e) 0, made @ [(Thrown e, 0)]))"

text \<open>A placeholder handed to the callback, after which the method returns.\<close>

definition placeholder :: "callback \<Rightarrow> jsstring \<Rightarrow> exn option \<times> calls" where
  "placeholder cb message = (cb (Sentence message) 0, [(Sentence message, 0)])"

text \<open>The lexer data of the first dependency that is a lexer grammar.\<close>

fun lexerDataOf ::
  "('tree, 'sym, 'diag, 'voc) SourceContext list \<Rightarrow> 'voc InterpreterData option" where
  "lexerDataOf [] = None"
| "lexerDataOf (dependency # rest) =
     (if grammar_type (info dependency) = Lexer then grammarLexerData dependency
      else lexerDataOf rest)"

text \<open>The \<open>switch\<close> on the grammar type: where the lexer data and the parser data come from.\<close>

definition lexerDataFor ::
  "('tree, 'sym, 'diag, 'voc) SourceContext \<Rightarrow> ('tree, 'sym, 'diag, 'voc) SourceContext list
   \<Rightarrow> 'voc InterpreterData option" where
  "lexerDataFor c dependency_list =
     (case grammar_type (info c) of
        Combined \<Rightarrow> grammarLexerData c
      | Lexer \<Rightarrow> grammarLexerData c
      | Parser \<Rightarrow> lexerDataOf dependency_list
      | Unknown \<Rightarrow> None)"

definition parserDataFor :: "('tree, 'sym, 'diag, 'voc) SourceContext \<Rightarrow> 'voc InterpreterData option" where
  "parserDataFor c =
     (case grammar_type (info c) of
        Combined \<Rightarrow> grammarParserData c
      | Lexer \<Rightarrow> None
      | Parser \<Rightarrow> grammarParserData c
      | Unknown \<Rightarrow> None)"

text \<open>\<open>generateSentence\<close> gives the exception that leaves it, if any, and the calls of the
  callback in order; \<open>None\<close> says that it does not return. The dependencies are listed in
  the order the set iterates.\<close>

definition generateSentence ::
  "(jsstring \<Rightarrow> jsstring) \<Rightarrow> 'gen generator_api \<Rightarrow> ('tree, 'sym, 'diag, 'voc) SourceContext
   \<Rightarrow> ('tree, 'sym, 'diag, 'voc) SourceContext list \<Rightarrow> jsstring \<Rightarrow> SentenceGenerationOptions
   \<Rightarrow> callback \<Rightarrow> (exn option \<times> calls) option" where
  "generateSentence toUpperCase api c dependency_list rule options cb =
     (if \<not> isInterpreterDataLoaded c then Some (placeholder cb (utf16 ''[No grammar data available]''))
      else if length rule = 0 then Some (placeholder cb (utf16 ''[No rule specified]''))
      else
        (case isLexerRule_of toUpperCase rule of
           Inl e \<Rightarrow> Some (Some e, [])
         | Inr isLexerRule \<Rightarrow>
             (case lexerDataFor c dependency_list of
                None \<Rightarrow> Some (placeholder cb (utf16 ''[No lexer data available]''))
              | Some lexerData \<Rightarrow>
                  if \<not> isLexerRule \<and> parserDataFor c = None
                  then Some (placeholder cb (utf16 ''[No parser data available]''))
                  else if isLexerRule then
                    (case grammarLexerRuleMap c rule of
                       None \<Rightarrow> Some (placeholder cb (utf16 ''[Virtual or undefined token]''))
                     | Some index \<Rightarrow>
                         generate_all api cb options (nth_opt (ruleToStartState (atn lexerData)) index))
                  else
                    (case grammarParserRuleMap c rule of
                       None \<Rightarrow> Some (placeholder cb (utf16 ''[Undefined rule]''))
                     | Some index \<Rightarrow>
                         (case parserDataFor c of
                            None \<Rightarrow> Some (Some TypeError, [])
                          | Some parserData \<Rightarrow>
                              generate_all api cb options
                                (nth_opt (ruleToStartState (atn parserData)) index))))))"

text \<open>The outcomes of \<open>n\<close> calls of \<open>generate\<close> one after the other, each on the generator as
  the call before left it.\<close>

fun outcomes :: "'gen generator_api \<Rightarrow> nat option \<Rightarrow> 'gen \<Rightarrow> nat \<Rightarrow> (exn + jsstring) list" where
  "outcomes api start gen 0 = []"
| "outcomes api start gen (Suc n) =
     (case generate api gen start of (r, gen1) \<Rightarrow> r # outcomes api start gen1 n)"


section \<open>A small grammar for the concrete instances\<close>

text \<open>
  The parser grammar \<open>a: 'x'; r: a 'y' | a 'z';\<close> as ANTLR lays its automaton out: the start
  and stop states of the rules first (0 and 1 for \<open>a\<close>, 2 and 3 for \<open>r\<close>), then the states
  of the rule bodies. Both alternatives of \<open>r\<close> begin with a call of \<open>a\<close>, from the states 7
  and 10, with the follow states 8 and 11.
\<close>

definition example_atn :: ATN where
  "example_atn =
     \<lparr>states =
        [\<lparr>stateType = RULE_START, ruleIndex = 0, transitions = [EpsilonTransition 4]\<rparr>,
         \<lparr>stateType = RULE_STOP, ruleIndex = 0, transitions = [EpsilonTransition 8, EpsilonTransition 11]\<rparr>,
         \<lparr>stateType = RULE_START, ruleIndex = 1, transitions = [EpsilonTransition 6]\<rparr>,
         \<lparr>stateType = RULE_STOP, ruleIndex = 1, transitions = []\<rparr>,
         \<lparr>stateType = BASIC, ruleIndex = 0, transitions = [AtomTransition 5 1]\<rparr>,
         \<lparr>stateType = BASIC, ruleIndex = 0, transitions = [EpsilonTransition 1]\<rparr>,
         \<lparr>stateType = BLOCK_START, ruleIndex = 1, transitions = [EpsilonTransition 7, EpsilonTransition 10]\<rparr>,
         \<lparr>stateType = BASIC, ruleIndex = 1, transitions = [RuleTransition 0 0 8]\<rparr>,
         \<lparr>stateType = BASIC, ruleIndex = 1, transitions = [AtomTransition 9 2]\<rparr>,
         \<lparr>stateType = BASIC, ruleIndex = 1, transitions = [EpsilonTransition 13]\<rparr>,
         \<lparr>stateType = BASIC, ruleIndex = 1, transitions = [RuleTransition 0 0 11]\<rparr>,
         \<lparr>stateType = BASIC, ruleIndex = 1, transitions = [AtomTransition 12 3]\<rparr>,
         \<lparr>stateType = BASIC, ruleIndex = 1, transitions = [EpsilonTransition 13]\<rparr>,
         \<lparr>stateType = BLOCK_END, ruleIndex = 1, transitions = [EpsilonTransition 3]\<rparr>],
      ruleToStartState = [0, 2],
      ruleToStopState = [1, 3]\<rparr>"

definition example_data :: "unit InterpreterData" where
  "example_data = \<lparr>atn = example_atn, ruleNames = [utf16 ''a'', utf16 ''r''], vocabulary = ()\<rparr>"

definition example_displayName :: "unit \<Rightarrow> int \<Rightarrow> jsstring" where
  "example_displayName voc tokenType =
     (if tokenType = 1 then utf16 ''x'' else if tokenType = 2 then utf16 ''y'' else utf16 ''z'')"

text \<open>
  The upper case of the code units below 256 as ECMAScript has it: the small letters of
  Basic Latin and of Latin-1 go to the capital 32 below, the micro sign to the Greek
  capital mu, the sharp s to \<open>SS\<close> and the y with diaeresis to U+0178. The instances use
  no other code unit, and this function leaves them alone.
\<close>

definition upper_unit :: "code_unit \<Rightarrow> jsstring" where
  "upper_unit u =
     (if 97 \<le> u \<and> u \<le> 122 then [u - 32]
      else if u = 181 then [924]
      else if u = 223 then [83, 83]
      else if 224 \<le> u \<and> u \<le> 254 \<and> u \<noteq> 247 then [u - 32]
      else if u = 255 then [376]
      else [u])"

definition example_toUpperCase :: "jsstring \<Rightarrow> jsstring" where
  "example_toUpperCase s = concat (map upper_unit s)"

text \<open>A file system that holds the interpreter data of the parser grammar \<open>T.g4\<close> and of
  the combined grammar \<open>C.g4\<close>.\<close>

definition example_host :: "unit host" where
  "example_host =
     \<lparr>existsSync = (\<lambda>file. file = ''./T.interp'' \<or> file = ''./CLexer.interp'' \<or> file = ''./C.interp''),
      parseFile = (\<lambda>file. example_data),
      path_basename = (\<lambda>file ext. if endsWith file ext then take (length file - length ext) file else file),
      path_extname = (\<lambda>file. ''.g4''),
      path_dirname = (\<lambda>file. ''.''),
      path_join = (\<lambda>dir file. dir @ ''/'' @ file)\<rparr>"

text \<open>
  A parser that accepts the text \<open>parser grammar T;\<close> at once and any other text only in
  its second, recovering run, reporting one syntax error in each run; the tree is the
  text. The listeners report one symbol, one unused rule and one diagram.
\<close>

definition example_frontend :: "(string, string, string) frontend" where
  "example_frontend =
     \<lparr>grammarSpec = (\<lambda>strategy mode src start.
                       if src = ''parser grammar T;'' then (Inr src, [], length src)
                       else if strategy = Some BailErrorStrategy
                            then (Inl ParseCancellationException, [''mismatched input''], start)
                       else (Inr src, [''mismatched input''], length src)),
      childCount = length,
      grammarType = (\<lambda>t. Inr (if take 6 t = ''parser'' then PARSER
                                else if take 5 t = ''lexer'' then LEXER else NoKeyword)),
      detailsWalk = (\<lambda>t. ([t], [])),
      getUnreferencedSymbols = symbols,
      semanticWalk = (\<lambda>t tab. ([''unused rule''], tab)),
      ruleVisit = (\<lambda>t. [t \<mapsto> ''Diagram()'']),
      symbolTable_getReferenceCount = (\<lambda>tab symbol. 1)\<rparr>"

definition example_context :: "(string, string, string, unit) SourceContext" where
  "example_context = setText ''parser grammar T;'' (initial_fields example_host ''T.g4'')"

definition example_parsed :: "(string, string, string, unit) SourceContext" where
  "example_parsed = snd (parse example_frontend example_context)"

definition example_loaded :: "(string, string, string, unit) SourceContext" where
  "example_loaded = setupInterpreters example_host None example_parsed"

text \<open>A combined grammar, parsed in the second run, with lexer and parser data loaded.\<close>

definition example_combined :: "(string, string, string, unit) SourceContext" where
  "example_combined =
     setupInterpreters example_host None
       (snd (parse example_frontend (setText ''grammar C;'' (initial_fields example_host ''C.g4''))))"

text \<open>A generator that always produces the same sentence and counts its calls, one whose
  \<open>generate\<close> always throws, and a callback that never throws.\<close>

definition example_generator :: "nat generator_api" where
  "example_generator =
     \<lparr>newSentenceGenerator = (\<lambda>file. Inr 0),
      generate = (\<lambda>gen start. (Inr (utf16 ''x y''), Suc gen))\<rparr>"

definition failing_generator :: "nat generator_api" where
  "failing_generator =
     \<lparr>newSentenceGenerator = (\<lambda>file. Inr 0),
      generate = (\<lambda>gen start. (Inl (OtherException ''no path''), gen))\<rparr>"

definition example_callback :: callback where
  "example_callback argument index = None"

text \<open>
  An automaton that ANTLR does not build: the state 4 of rule \<open>r\<close> has two transitions, a
  call of rule \<open>a\<close> with the follow state 3 and an epsilon transition to the state 3 that
  skips the call. \<open>odd_loaded\<close> is the parsed example context with this automaton loaded
  as its parser data.
\<close>

definition odd_atn :: ATN where
  "odd_atn =
     \<lparr>states =
        [\<lparr>stateType = RULE_START, ruleIndex = 0, transitions = [EpsilonTransition 1]\<rparr>,
         \<lparr>stateType = RULE_STOP, ruleIndex = 0, transitions = []\<rparr>,
         \<lparr>stateType = RULE_START, ruleIndex = 1, transitions = [EpsilonTransition 4]\<rparr>,
         \<lparr>stateType = RULE_STOP, ruleIndex = 1, transitions = []\<rparr>,
         \<lparr>stateType = BASIC, ruleIndex = 1, transitions = [RuleTransition 0 0 3, EpsilonTransition 3]\<rparr>],
      ruleToStartState = [0, 2],
      ruleToStopState = [1, 3]\<rparr>"

definition odd_data :: "unit InterpreterData" where
  "odd_data = \<lparr>atn = odd_atn, ruleNames = [utf16 ''a'', utf16 ''r''], vocabulary = ()\<rparr>"

definition odd_loaded :: "(string, string, string, unit) SourceContext" where
  "odd_loaded = setupInterpreters (example_host\<lparr>parseFile := (\<lambda>file. odd_data)\<rparr>) None example_parsed"


section \<open>Properties of parse and of the semantic pass\<close>

subsection \<open>The context after parse\<close>

lemma run_grammarSpec_eq:
  "tokenStream c = Some (src, start) \<Longrightarrow> parser c = Some p \<Longrightarrow>
   run_grammarSpec fe c =
     (fst (grammarSpec fe (errorHandler p) (predictionMode p) src start),
      c\<lparr>trace := trace c @ [GrammarSpecRun (errorHandler p) (predictionMode p) start],
        diagnostics := diagnostics c @ fst (snd (grammarSpec fe (errorHandler p) (predictionMode p) src start)),
        tokenStream := Some (src, snd (snd (grammarSpec fe (errorHandler p) (predictionMode p) src start)))\<rparr>)"
  by (simp add: run_grammarSpec_def Let_def split: prod.split)

lemma first_run:
  "run_grammarSpec fe (parse_reset src c) = (fst (fast_run fe src), after_fast fe src c)"
  by (subst run_grammarSpec_eq[where src = src and start = 0
        and p = "\<lparr>errorHandler = Some BailErrorStrategy, predictionMode = SLL\<rparr>"])
     (simp_all add: parse_reset_def after_fast_def fast_run_def)

lemma second_run:
  "run_grammarSpec fe ((after_fast fe src c)
       \<lparr>tokenStream := Some (src, 0),
        parser := Some \<lparr>errorHandler = Some DefaultErrorStrategy, predictionMode = LL\<rparr>\<rparr>)
   = (fst (general_run fe src), after_general fe src c)"
  by (subst run_grammarSpec_eq[where src = src and start = 0
        and p = "\<lparr>errorHandler = Some DefaultErrorStrategy, predictionMode = LL\<rparr>"])
     (simp_all add: after_general_def after_fast_def general_run_def parse_reset_def)

lemma parse_tree_eq:
  "parse_tree fe src (parse_reset src c) =
     (if fst (fast_run fe src) = Inl ParseCancellationException
      then (fst (general_run fe src), after_general fe src c)
      else (fst (fast_run fe src), after_fast fe src c))"
  by (cases "fst (fast_run fe src)") (simp_all add: parse_tree_def first_run second_run)


lemma parse_eq:
  assumes "tokenStream c = Some (src, pos)"
  shows "parse fe c =
     (if fst (fast_run fe src) = Inl ParseCancellationException
      then (case fst (general_run fe src) of
              Inl e \<Rightarrow> (Inl e, after_general fe src c)
            | Inr t \<Rightarrow> (Inr (import_list (info (parse_walk fe t (after_general fe src c)))),
                       parse_walk fe t (after_general fe src c)))
      else (case fst (fast_run fe src) of
              Inl e \<Rightarrow> (Inl e, after_fast fe src c)
            | Inr t \<Rightarrow> (Inr (import_list (info (parse_walk fe t (after_fast fe src c)))),
                       parse_walk fe t (after_fast fe src c))))"
  using assms by (simp add: parse_def parse_tree_eq split: sum.split)

lemma parse_state_cases:
  assumes "tokenStream c = Some (src, pos)"
  obtains (fast_ok) t where "fst (fast_run fe src) = Inr t"
      "parse fe c = (Inr (import_list (info (parse_walk fe t (after_fast fe src c)))),
                     parse_walk fe t (after_fast fe src c))"
  | (fast_thrown) e where "fst (fast_run fe src) = Inl e" "e \<noteq> ParseCancellationException"
      "parse fe c = (Inl e, after_fast fe src c)"
  | (general_ok) t where "fst (fast_run fe src) = Inl ParseCancellationException"
      "fst (general_run fe src) = Inr t"
      "parse fe c = (Inr (import_list (info (parse_walk fe t (after_general fe src c)))),
                     parse_walk fe t (after_general fe src c))"
  | (general_thrown) e where "fst (fast_run fe src) = Inl ParseCancellationException"
      "fst (general_run fe src) = Inl e"
      "parse fe c = (Inl e, after_general fe src c)"
proof (cases "fst (fast_run fe src)")
  case (Inr t)
  then show ?thesis using fast_ok parse_eq[OF assms, of fe] by simp
next
  case (Inl e)
  show ?thesis
  proof (cases "e = ParseCancellationException")
    case False
    then show ?thesis using fast_thrown Inl parse_eq[OF assms, of fe] by simp
  next
    case True
    show ?thesis
    proof (cases "fst (general_run fe src)")
      case (Inl e2)
      then show ?thesis using general_thrown True \<open>fst (fast_run fe src) = Inl e\<close> parse_eq[OF assms, of fe] by simp
    next
      case (Inr t)
      then show ?thesis using general_ok True \<open>fst (fast_run fe src) = Inl e\<close> parse_eq[OF assms, of fe] by simp
    qed
  qed
qed

lemma after_fast_fields:
  "grammarLexerData (after_fast fe src c) = None"
  "grammarParserData (after_fast fe src c) = None"
  "grammarLexerRuleMap (after_fast fe src c) = Map.empty"
  "\<not> semanticAnalysisDone (after_fast fe src c)"
  "symbolTable (after_fast fe src c) = addDependencies GlobalSymbols (clear (symbolTable c))"
  "diagnostics (after_fast fe src c) = fst (snd (fast_run fe src))"
  "trace (after_fast fe src c) = trace c @ [GrammarSpecRun (Some BailErrorStrategy) SLL 0]"
  "tree (after_fast fe src c) = None"
  by (simp_all add: after_fast_def parse_reset_def)

lemma after_general_fields:
  "grammarLexerData (after_general fe src c) = None"
  "grammarParserData (after_general fe src c) = None"
  "grammarLexerRuleMap (after_general fe src c) = Map.empty"
  "\<not> semanticAnalysisDone (after_general fe src c)"
  "symbolTable (after_general fe src c) = addDependencies GlobalSymbols (clear (symbolTable c))"
  "diagnostics (after_general fe src c) = fst (snd (fast_run fe src)) @ fst (snd (general_run fe src))"
  "trace (after_general fe src c) = trace c @ [GrammarSpecRun (Some BailErrorStrategy) SLL 0,
                            GrammarSpecRun (Some DefaultErrorStrategy) LL 0]"
  "tree (after_general fe src c) = None"
  by (simp_all add: after_general_def after_fast_fields)

lemma parse_walk_fields:
  "grammarLexerData (parse_walk fe t c) = grammarLexerData c"
  "grammarParserData (parse_walk fe t c) = grammarParserData c"
  "grammarLexerRuleMap (parse_walk fe t c) = grammarLexerRuleMap c"
  "semanticAnalysisDone (parse_walk fe t c) = semanticAnalysisDone c"
  "symbols (symbolTable (parse_walk fe t c)) = symbols (symbolTable c) @ fst (detailsWalk fe t)"
  "dependencies (symbolTable (parse_walk fe t c)) = dependencies (symbolTable c)"
  "diagnostics (parse_walk fe t c) = diagnostics c"
  "trace (parse_walk fe t c) = trace c"
  "tree (parse_walk fe t c) = Some t"
  by (simp_all add: parse_walk_def Let_def)

lemma cleared_table:
  "symbols (addDependencies GlobalSymbols (clear tab)) = []"
  "dependencies (addDependencies GlobalSymbols (clear tab)) = [GlobalSymbols]"
  by (simp_all add: addDependencies_def clear_def)

lemmas parse_fields = after_fast_fields after_general_fields parse_walk_fields cleared_table





subsection \<open>runSemanticAnalysisIfNeeded by cases\<close>















subsection \<open>The example grammar, parsed and loaded\<close>

lemma example_context_fields:
  "tokenStream example_context = Some (''parser grammar T;'', 0)"
  "trace example_context = []"
  "diagnostics example_context = []"
  by (simp_all add: example_context_def setText_def initial_fields_def)

lemma example_runs:
  "fast_run example_frontend ''parser grammar T;'' = (Inr ''parser grammar T;'', [], 17)"
  "fast_run example_frontend ''grammar T'' = (Inl ParseCancellationException, [''mismatched input''], 0)"
  "general_run example_frontend ''grammar T'' = (Inr ''grammar T'', [''mismatched input''], 9)"
  by (simp_all add: fast_run_def general_run_def example_frontend_def)

lemma example_walks:
  "parse_kind example_frontend ''parser grammar T;'' Unknown = Parser"
  "detailsWalk example_frontend t = ([t], [])"
  "getUnreferencedSymbols example_frontend tab = symbols tab"
  "semanticWalk example_frontend t tab = ([''unused rule''], tab)"
  by (simp_all add: parse_kind_def example_frontend_def)

lemma example_parsed_eq:
  "example_parsed = parse_walk example_frontend ''parser grammar T;''
                      (after_fast example_frontend ''parser grammar T;'' example_context)"
  unfolding example_parsed_def
  by (simp add: parse_eq[OF example_context_fields(1)] example_runs)

lemma example_parsed_fields:
  "tokenStream example_parsed = Some (''parser grammar T;'', 17)"
  "tree example_parsed = Some ''parser grammar T;''"
  "\<not> semanticAnalysisDone example_parsed"
  "trace example_parsed = [GrammarSpecRun (Some BailErrorStrategy) SLL 0]"
  "diagnostics example_parsed = []"
  "references example_parsed = []"
  "grammar_type (info example_parsed) = Parser"
  "fileName example_parsed = ''T.g4''"
  "symbolTable example_parsed =
     \<lparr>allowDuplicateSymbols = True, symbols = [''parser grammar T;''], dependencies = [GlobalSymbols]\<rparr>"
  unfolding example_parsed_eq
  by (simp_all add: parse_walk_def after_fast_def parse_reset_def example_runs example_walks
      example_context_def setText_def initial_fields_def addDependencies_def clear_def)

lemma example_loaded_fields:
  "tokenStream example_loaded = Some (''parser grammar T;'', 17)"
  "grammarParserData example_loaded = Some example_data"
  "grammarLexerData example_loaded = None"
  "grammarParserRuleMap example_loaded (utf16 ''r'') = Some 1"
  "grammar_type (info example_loaded) = Parser"
  "diagnostics example_loaded = []"
  "trace example_loaded = [GrammarSpecRun (Some BailErrorStrategy) SLL 0]"
  unfolding example_loaded_def
  by (simp_all add: setupInterpreters_def example_parsed_fields Let_def example_host_def endsWith_def
      ruleMapOf_def example_data_def)

section \<open>Properties of the reference mesh\<close>

lemma mutualInclusion_cycle_aux:
  assumes refs: "references (st A) = [B]" "references (st B) = [A]" "C \<noteq> A" "C \<noteq> B"
    and ret: "mutualInclusion st' this p = Some y"
  shows "\<not> (st' = st \<and> this = C \<and> (p = [A] \<or> p = [B]))"
proof (rule mutualInclusion.raw_induct
    [where P = "\<lambda>st' this p y. \<not> (st' = st \<and> this = C \<and> (p = [A] \<or> p = [B]))", OF _ ret],
    goal_cases)
  case (1 f st' this p y)
  note IH = 1(1) and body = 1(2)
  show ?case
  proof
    assume h: "st' = st \<and> this = C \<and> (p = [A] \<or> p = [B])"
    then consider "p = [A]" | "p = [B]" by blast
    then show False
    proof cases
      case 1
      with body h refs have "f st C [B] = Some y" by simp
      from IH[OF this] show False by simp
    next
      case 2
      with body h refs have "f st C [A] = Some y" by simp
      from IH[OF this] show False by simp
    qed
  qed
qed

lemma mutualInclusion_cycle:
  assumes "references (st A) = [B]" "references (st B) = [A]" "C \<noteq> A" "C \<noteq> B"
  shows "mutualInclusion st C [A] = None"
proof (cases "mutualInclusion st C [A]")
  case None then show ?thesis .
next
  case (Some y)
  from mutualInclusion_cycle_aux[OF assms Some] show ?thesis by simp
qed

lemma mutualInclusion_empty:
  "references (st B) = [] \<Longrightarrow> mutualInclusion st A [B] = Some False"
  by (subst mutualInclusion.simps, simp, subst mutualInclusion.simps, simp)

lemma mutualInclusion_member:
  "A \<in> set (references (st B)) \<Longrightarrow> mutualInclusion st A (B # rest) = Some True"
  by (subst mutualInclusion.simps, simp)

lemma runSemanticAnalysisIfNeeded_references:
  "references (snd (runSemanticAnalysisIfNeeded fe c)) = references c"
  by (simp add: runSemanticAnalysisIfNeeded_def Let_def split: option.split prod.split)

lemma runSemanticAnalysisIfNeeded_returns:
  "tree c \<noteq> None \<or> semanticAnalysisDone c \<Longrightarrow> fst (runSemanticAnalysisIfNeeded fe c) = None"
  by (auto simp add: runSemanticAnalysisIfNeeded_def Let_def split: option.split prod.split)

lemma runSemanticAnalysisIfNeeded_done:
  "semanticAnalysisDone (snd (runSemanticAnalysisIfNeeded fe c))"
  by (simp add: runSemanticAnalysisIfNeeded_def Let_def split: option.split prod.split)

lemma getReferenceCount_cycle:
  "references (st X) = [Y] \<Longrightarrow> references (st Y) = [X] \<Longrightarrow> analysable (st X) \<Longrightarrow> analysable (st Y)
   \<Longrightarrow> snd (getReferenceCount fe depth st X symbol) = None"
proof (induction depth arbitrary: st X Y)
  case 0
  show ?case by simp
next
  case (Suc depth)
  obtain e c where r: "runSemanticAnalysisIfNeeded fe (st X) = (e, c)"
    by (cases "runSemanticAnalysisIfNeeded fe (st X)")
  have e: "e = None"
    using runSemanticAnalysisIfNeeded_returns[of "st X" fe] Suc.prems(3) r by (simp add: analysable_def)
  have c: "references c = [Y]" "analysable c"
    using runSemanticAnalysisIfNeeded_references[of fe "st X"]
      runSemanticAnalysisIfNeeded_done[of fe "st X"] r Suc.prems(1)
    by (simp_all add: analysable_def)
  let ?st = "st(X := c)"
  have "references (?st Y) = [X]" "references (?st X) = [Y]" "analysable (?st Y)" "analysable (?st X)"
    using c Suc.prems by auto
  from Suc.IH[OF this] have "snd (getReferenceCount fe depth ?st Y symbol) = None" .
  then obtain st2 where "getReferenceCount fe depth ?st Y symbol = (st2, None)"
    by (cases "getReferenceCount fe depth ?st Y symbol") auto
  then show ?case using r e c by simp
qed

lemma addAsReferenceTo_fresh:
  assumes "references (st B) = []"
  shows "addAsReferenceTo st A B =
           Some ((st(B := (st B)\<lparr>references := [A]\<rparr>))
                   (A := ((st(B := (st B)\<lparr>references := [A]\<rparr>)) A)
                      \<lparr>symbolTable := addDependencies (TableOf B)
                          (symbolTable ((st(B := (st B)\<lparr>references := [A]\<rparr>)) A))\<rparr>))"
  using assms by (simp add: addAsReferenceTo_def mutualInclusion_empty Let_def)

lemma addAsReferenceTo_known:
  assumes "A \<in> set (references (st B))"
  shows "addAsReferenceTo st A B = Some st"
  using assms by (simp add: addAsReferenceTo_def mutualInclusion_member)

lemma mutual_references:
  assumes "references (st A) = []" "references (st B) = []" "A \<noteq> B"
  obtains st1 st2 where "addAsReferenceTo st A B = Some st1" "addAsReferenceTo st1 B A = Some st2"
    "references (st2 A) = [B]" "references (st2 B) = [A]"
    "tree (st2 A) = tree (st A)" "tree (st2 B) = tree (st B)"
    "semanticAnalysisDone (st2 A) = semanticAnalysisDone (st A)"
    "semanticAnalysisDone (st2 B) = semanticAnalysisDone (st B)"
proof -
  let ?st0 = "st(B := (st B)\<lparr>references := [A]\<rparr>)"
  let ?st1 = "?st0(A := (?st0 A)\<lparr>symbolTable := addDependencies (TableOf B) (symbolTable (?st0 A))\<rparr>)"
  have one: "addAsReferenceTo st A B = Some ?st1"
    by (rule addAsReferenceTo_fresh[where st = st and B = B and A = A, OF assms(2)])
  have r1: "references (?st1 A) = []" using assms by simp
  let ?st2 = "?st1(A := (?st1 A)\<lparr>references := [B]\<rparr>)"
  let ?st3 = "?st2(B := (?st2 B)\<lparr>symbolTable := addDependencies (TableOf A) (symbolTable (?st2 B))\<rparr>)"
  have two: "addAsReferenceTo ?st1 B A = Some ?st3"
    by (rule addAsReferenceTo_fresh[where st = "?st1" and B = A and A = B, OF r1])
  show ?thesis
    by (rule that[OF one two]) (use assms in simp_all)
qed


section \<open>Properties of the constructor\<close>

lemma initGlobalSymbols_initial:
  "initGlobalSymbols globalSymbols_initial = Inr (globalSymbols_initial\<lparr>symbols := builtin_symbols\<rparr>)"
  by (simp add: initGlobalSymbols_def globalSymbols_initial_def resolve_def addNewSymbolOfType_def
      builtin_symbols_def)

lemma initGlobalSymbols_done:
  "initGlobalSymbols (globalSymbols_initial\<lparr>symbols := builtin_symbols\<rparr>)
     = Inr (globalSymbols_initial\<lparr>symbols := builtin_symbols\<rparr>)"
  by (simp add: initGlobalSymbols_def globalSymbols_initial_def resolve_def builtin_symbols_def)

lemma construct_all_initialised:
  "\<exists>cs. (construct_all h files (globalSymbols_initial\<lparr>symbols := builtin_symbols\<rparr>)
           :: exn + ('tree, 'sym, 'diag, 'voc) SourceContext list \<times> Symbol ContextSymbolTable)
         = Inr (cs, globalSymbols_initial\<lparr>symbols := builtin_symbols\<rparr>) \<and> length cs = length files"
proof (induction files)
  case Nil
  show ?case by simp
next
  case (Cons f fs)
  then obtain cs where cs: "(construct_all h fs (globalSymbols_initial\<lparr>symbols := builtin_symbols\<rparr>)
           :: exn + ('tree, 'sym, 'diag, 'voc) SourceContext list \<times> Symbol ContextSymbolTable)
         = Inr (cs, globalSymbols_initial\<lparr>symbols := builtin_symbols\<rparr>)" "length cs = length fs" by blast
  show ?case
    by (simp add: new_SourceContext_def initGlobalSymbols_done cs)
qed


section \<open>Properties of sentence generation and of the rule name test\<close>

lemma length_outcomes: "length (outcomes api start gen n) = n"
  by (induction n arbitrary: gen) (simp_all split: prod.split)

lemma zip_upt_Cons:
  "i < n \<Longrightarrow> zip (map Sentence (s # ss)) [i..<n] = (Sentence s, i) # zip (map Sentence ss) [Suc i..<n]"
  by (simp add: upt_conv_Cons)

text \<open>The loop when every call of \<open>generate\<close> gives a sentence.\<close>

lemma generate_loop_success:
  assumes cb: "\<And>a i. cb a i = None"
    and turns: "\<And>j. j < n \<Longrightarrow> below j number \<and> increment j = Suc j" "\<not> below n number"
  shows "i \<le> n \<Longrightarrow> outcomes api start gen (n - i) = map Inr ss \<Longrightarrow>
         generate_loop api cb start number gen i made = Some (None, made @ zip (map Sentence ss) [i..<n])"
proof (induction ss arbitrary: gen i made)
  case Nil
  from Nil(2) length_outcomes[of api start gen "n - i"] have "n - i = 0" by simp
  with Nil(1) have "i = n" by simp
  then show ?case using turns(2) by (subst generate_loop.simps) simp
next
  case (Cons s ss)
  from Cons(3) length_outcomes[of api start gen "n - i"] have len: "n - i = Suc (length ss)" by simp
  then have lt: "i < n" by simp
  from len have m: "n - i = Suc (n - Suc i)" by simp
  obtain r gen1 where g: "generate api gen start = (r, gen1)" by (cases "generate api gen start")
  from Cons(3) have r: "r = Inr s" and rest: "outcomes api start gen1 (n - Suc i) = map Inr ss"
    unfolding m by (simp_all add: g)
  from turns(1)[OF lt] have b: "below i number" and inc: "increment i = Suc i" by simp_all
  have step: "generate_loop api cb start number gen i made
                = generate_loop api cb start number gen1 (Suc i) (made @ [(Sentence s, i)])"
    by (subst generate_loop.simps) (simp add: b g r cb inc)
  from lt have "Suc i \<le> n" by simp
  from Cons.IH[OF this rest, of "made @ [(Sentence s, i)]"] show ?case
    unfolding step zip_upt_Cons[OF lt] by simp
qed

text \<open>The loop when a call of \<open>generate\<close> throws.\<close>

lemma generate_loop_failure:
  assumes cb: "\<And>a i. cb a i = None"
    and turns: "\<And>j. j < n \<Longrightarrow> below j number \<and> increment j = Suc j"
  shows "i + length ss < n \<Longrightarrow> outcomes api start gen (Suc (length ss)) = map Inr ss @ [Inl e] \<Longrightarrow>
         generate_loop api cb start number gen i made
           = Some (Some e, made @ zip (map Sentence ss) [i..<i + length ss])"
proof (induction ss arbitrary: gen i made)
  case Nil
  then have lt: "i < n" by simp
  obtain r gen1 where g: "generate api gen start = (r, gen1)" by (cases "generate api gen start")
  from Nil(2) have r: "r = Inl e" by (simp add: g)
  from turns[OF lt] have b: "below i number" by simp
  show ?case by (subst generate_loop.simps) (simp add: b g r)
next
  case (Cons s ss)
  then have lt: "i < n" by simp
  obtain r gen1 where g: "generate api gen start = (r, gen1)" by (cases "generate api gen start")
  from Cons(3) have r: "r = Inr s"
    and rest: "outcomes api start gen1 (Suc (length ss)) = map Inr ss @ [Inl e]"
    by (simp_all add: g)
  from turns[OF lt] have b: "below i number" and inc: "increment i = Suc i" by simp_all
  have step: "generate_loop api cb start number gen i made
                = generate_loop api cb start number gen1 (Suc i) (made @ [(Sentence s, i)])"
    by (subst generate_loop.simps) (simp add: b g r cb inc)
  from Cons(2) have "Suc i + length ss < n" by simp
  from Cons.IH[OF this rest, of "made @ [(Sentence s, i)]"]
  have "generate_loop api cb start number gen i made
          = Some (Some e, made @ (Sentence s, i) # zip (map Sentence ss) [Suc i..<Suc i + length ss])"
    unfolding step by simp
  moreover have "zip (map Sentence (s # ss)) [i..<i + length (s # ss)]
                   = (Sentence s, i) # zip (map Sentence ss) [Suc i..<Suc i + length ss]"
    using zip_upt_Cons[of i "i + length (s # ss)" s ss] by simp
  ultimately show ?case by simp
qed

text \<open>The loop without an end: the test \<open>i < count\<close> holds up to \<open>2\<^sup>5\<^sup>3\<close>, where the loop
  variable stays, and \<open>generate\<close> never throws.\<close>

lemma generate_loop_endless_aux:
  assumes cb: "\<And>a i. cb a i = None"
    and always: "\<And>j. j \<le> 2 ^ 53 \<Longrightarrow> below j number"
    and ok: "\<And>g. \<exists>s. fst (generate api g start) = Inr s"
    and ret: "generate_loop api' cb' start' number' gen i made = Some y"
  shows "\<not> (api' = api \<and> cb' = cb \<and> start' = start \<and> number' = number \<and> i \<le> 2 ^ 53)"
proof (rule generate_loop.raw_induct
    [where P = "\<lambda>api' cb' start' number' gen i made y.
                  \<not> (api' = api \<and> cb' = cb \<and> start' = start \<and> number' = number \<and> i \<le> 2 ^ 53)",
     OF _ ret], goal_cases)
  case (1 f api' cb' start' number' gen i made y)
  note IH = 1(1) and body = 1(2)
  show ?case
  proof
    assume h: "api' = api \<and> cb' = cb \<and> start' = start \<and> number' = number \<and> i \<le> 2 ^ 53"
    then have b: "below i number" using always by simp
    obtain r gen1 where g: "generate api gen start = (r, gen1)" by (cases "generate api gen start")
    from ok[of gen] g obtain s where r: "r = Inr s" by auto
    from body h b g r cb
    have "f api cb start number gen1 (increment i) (made @ [(Sentence s, i)]) = Some y" by simp
    from IH[OF this] have "\<not> increment i \<le> 2 ^ 53" by simp
    moreover from h have "increment i \<le> 2 ^ 53" by (simp add: increment_def)
    ultimately show False by simp
  qed
qed

lemma generate_loop_endless:
  assumes cb: "\<And>a i. cb a i = None"
    and always: "\<And>j. j \<le> 2 ^ 53 \<Longrightarrow> below j number"
    and ok: "\<And>g. \<exists>s. fst (generate api g start) = Inr s"
  shows "generate_loop api cb start number gen 0 [] = None"
proof (cases "generate_loop api cb start number gen 0 []")
  case None then show ?thesis .
next
  case (Some y)
  have "\<not> (api = api \<and> cb = cb \<and> start = start \<and> number = number \<and> (0::nat) \<le> 2 ^ 53)"
    by (rule generate_loop_endless_aux
          [where cb = cb and number = number and api = api and start = start, OF cb always ok Some])
  then show ?thesis by simp
qed

text \<open>The number of turns of the loop for a count that is finite and not above \<open>2\<^sup>5\<^sup>3\<close>, and
  for a count that is not a number.\<close>

lemma turns_Finite:
  assumes "q \<le> 2 ^ 53"
  shows "j < nat \<lceil>q\<rceil> \<Longrightarrow> below j (Finite q) \<and> increment j = Suc j"
    and "\<not> below (nat \<lceil>q\<rceil>) (Finite q)"
proof -
  show "\<not> below (nat \<lceil>q\<rceil>) (Finite q)"
  proof -
    have "\<lceil>q\<rceil> \<le> int (nat \<lceil>q\<rceil>)" by simp
    then have "(of_int \<lceil>q\<rceil> :: rat) \<le> of_int (int (nat \<lceil>q\<rceil>))"
      by (rule of_int_le_iff[THEN iffD2])
    then have "(of_int \<lceil>q\<rceil> :: rat) \<le> of_nat (nat \<lceil>q\<rceil>)"
      by (simp only: of_int_of_nat_eq)
    with le_of_int_ceiling[of q] have "q \<le> of_nat (nat \<lceil>q\<rceil>)" by (rule order_trans)
    then show ?thesis by (simp only: below.simps not_less)
  qed
  assume j: "j < nat \<lceil>q\<rceil>"
  then have "int j < \<lceil>q\<rceil>" by simp
  then have "of_int (int j) < q" by (simp only: less_ceiling_iff)
  then have b: "below j (Finite q)" by simp
  have "q \<le> of_int (2 ^ 53)" using assms by simp
  then have "\<lceil>q\<rceil> \<le> 2 ^ 53" by (simp only: ceiling_le_iff)
  then have "nat \<lceil>q\<rceil> \<le> nat (2 ^ 53)" by (rule nat_mono)
  moreover have "nat (2 ^ 53) = (2 ^ 53 :: nat)" by simp
  ultimately have "nat \<lceil>q\<rceil> \<le> 2 ^ 53" by (simp only:)
  with j have "j \<noteq> 2 ^ 53" by simp
  with b show "below j (Finite q) \<and> increment j = Suc j" by (simp add: increment_def)
qed

lemma generate_all_returns:
  assumes cb: "\<And>a i. cb a i = None"
  shows "generate_all api cb options start = Some r \<Longrightarrow> fst r = None"
  by (auto simp add: generate_all_def cb split: sum.splits option.splits prod.splits)

lemma generate_all_no_generator:
  assumes cb: "\<And>a i. cb a i = None"
  shows "newSentenceGenerator api (actionFile options) = Inl e \<Longrightarrow>
         generate_all api cb options start = Some (None, [(Thrown e, 0)])"
  by (simp add: generate_all_def cb)

lemma generate_all_success:
  assumes cb: "\<And>a i. cb a i = None"
    and gen: "newSentenceGenerator api (actionFile options) = Inr gen"
    and n: "sentence_count options = NaN \<and> n = 0
            \<or> (\<exists>q. sentence_count options = Finite q \<and> q \<le> 2 ^ 53 \<and> n = nat \<lceil>q\<rceil>)"
    and out: "outcomes api start gen n = map Inr ss"
  shows "generate_all api cb options start = Some (None, zip (map Sentence ss) [0..<n])"
proof -
  from n have turns: "\<And>j. j < n \<Longrightarrow> below j (sentence_count options) \<and> increment j = Suc j"
    "\<not> below n (sentence_count options)"
    using turns_Finite by auto
  have "generate_loop api cb start (sentence_count options) gen 0 []
          = Some (None, [] @ zip (map Sentence ss) [0..<n])"
    by (rule generate_loop_success[OF cb turns]) (simp_all add: out)
  then show ?thesis by (simp add: generate_all_def gen)
qed

lemma generate_all_failure:
  assumes cb: "\<And>a i. cb a i = None"
    and gen: "newSentenceGenerator api (actionFile options) = Inr gen"
    and n: "sentence_count options = NaN \<and> n = 0
            \<or> (\<exists>q. sentence_count options = Finite q \<and> q \<le> 2 ^ 53 \<and> n = nat \<lceil>q\<rceil>)"
    and k: "k < n"
    and out: "outcomes api start gen (Suc k) = map Inr ss @ [Inl e]"
  shows "generate_all api cb options start
           = Some (None, zip (map Sentence ss) [0..<k] @ [(Thrown e, 0)])"
proof -
  from n have turns: "\<And>j. j < n \<Longrightarrow> below j (sentence_count options) \<and> increment j = Suc j"
    using turns_Finite by auto
  from out length_outcomes[of api start gen "Suc k"] have len: "length ss = k" by simp
  have a: "0 + length ss < n" using len k by simp
  have b: "outcomes api start gen (Suc (length ss)) = map Inr ss @ [Inl e]"
    unfolding len by (rule out)
  have "generate_loop api cb start (sentence_count options) gen 0 []
          = Some (Some e, [] @ zip (map Sentence ss) [0..<0 + length ss])"
    by (rule generate_loop_failure[OF cb turns a b])
  then show ?thesis by (simp add: generate_all_def gen cb len)
qed

lemma generate_all_endless:
  assumes cb: "\<And>a i. cb a i = None"
    and gen: "newSentenceGenerator api (actionFile options) = Inr gen"
    and n: "sentence_count options = PositiveInfinity
            \<or> (\<exists>q. sentence_count options = Finite q \<and> 2 ^ 53 < q)"
    and ok: "\<And>g. \<exists>s. fst (generate api g start) = Inr s"
  shows "generate_all api cb options start = None"
proof -
  have always: "below j (sentence_count options)" if "j \<le> 2 ^ 53" for j
  proof -
    from that have "(of_nat j :: rat) \<le> of_nat (2 ^ 53)" by (simp only: of_nat_le_iff)
    then have "(of_nat j :: rat) \<le> 2 ^ 53" by simp
    with n show ?thesis by auto
  qed
  have "generate_loop api cb start (sentence_count options) gen 0 [] = None"
    by (rule generate_loop_endless[OF cb always ok])
  then show ?thesis by (simp add: generate_all_def gen)
qed

lemma isLexerRule_of_nonempty:
  "rule \<noteq> [] \<Longrightarrow> isLexerRule_of toUpperCase rule = Inr ([hd rule] = toUpperCase [hd rule])"
  by (cases rule) (simp_all add: isLexerRule_of_def)

lemma generateSentence_no_data:
  "\<not> isInterpreterDataLoaded c \<Longrightarrow>
   generateSentence toUpperCase api c deps rule options cb = Some (placeholder cb (utf16 ''[No grammar data available]''))"
  by (simp add: generateSentence_def)

lemma generateSentence_no_rule:
  "isInterpreterDataLoaded c \<Longrightarrow>
   generateSentence toUpperCase api c deps [] options cb = Some (placeholder cb (utf16 ''[No rule specified]''))"
  by (simp add: generateSentence_def)

lemma generateSentence_no_lexer:
  "isInterpreterDataLoaded c \<Longrightarrow> rule \<noteq> [] \<Longrightarrow> lexerDataFor c deps = None \<Longrightarrow>
   generateSentence toUpperCase api c deps rule options cb = Some (placeholder cb (utf16 ''[No lexer data available]''))"
  by (simp add: generateSentence_def isLexerRule_of_nonempty)

lemma generateSentence_no_parser:
  "isInterpreterDataLoaded c \<Longrightarrow> rule \<noteq> [] \<Longrightarrow> lexerDataFor c deps = Some l \<Longrightarrow>
   isLexerRule_of toUpperCase rule = Inr False \<Longrightarrow> parserDataFor c = None \<Longrightarrow>
   generateSentence toUpperCase api c deps rule options cb = Some (placeholder cb (utf16 ''[No parser data available]''))"
  by (simp add: generateSentence_def)

lemma generateSentence_no_token:
  "isInterpreterDataLoaded c \<Longrightarrow> rule \<noteq> [] \<Longrightarrow> lexerDataFor c deps = Some l \<Longrightarrow>
   isLexerRule_of toUpperCase rule = Inr True \<Longrightarrow> grammarLexerRuleMap c rule = None \<Longrightarrow>
   generateSentence toUpperCase api c deps rule options cb = Some (placeholder cb (utf16 ''[Virtual or undefined token]''))"
  by (simp add: generateSentence_def)

lemma generateSentence_no_parser_rule:
  "isInterpreterDataLoaded c \<Longrightarrow> rule \<noteq> [] \<Longrightarrow> lexerDataFor c deps = Some l \<Longrightarrow>
   isLexerRule_of toUpperCase rule = Inr False \<Longrightarrow> parserDataFor c = Some p \<Longrightarrow> grammarParserRuleMap c rule = None \<Longrightarrow>
   generateSentence toUpperCase api c deps rule options cb = Some (placeholder cb (utf16 ''[Undefined rule]''))"
  by (simp add: generateSentence_def)

lemma generateSentence_lexer_rule:
  "isInterpreterDataLoaded c \<Longrightarrow> rule \<noteq> [] \<Longrightarrow> lexerDataFor c deps = Some l \<Longrightarrow>
   isLexerRule_of toUpperCase rule = Inr True \<Longrightarrow> grammarLexerRuleMap c rule = Some index \<Longrightarrow>
   generateSentence toUpperCase api c deps rule options cb
     = generate_all api cb options (nth_opt (ruleToStartState (atn l)) index)"
  by (simp add: generateSentence_def)

lemma generateSentence_parser_rule:
  "isInterpreterDataLoaded c \<Longrightarrow> rule \<noteq> [] \<Longrightarrow> lexerDataFor c deps = Some l \<Longrightarrow>
   isLexerRule_of toUpperCase rule = Inr False \<Longrightarrow> parserDataFor c = Some p \<Longrightarrow> grammarParserRuleMap c rule = Some index \<Longrightarrow>
   generateSentence toUpperCase api c deps rule options cb
     = generate_all api cb options (nth_opt (ruleToStartState (atn p)) index)"
  by (simp add: generateSentence_def)

text \<open>Whatever the case, \<open>generateSentence\<close> ends in a placeholder or in a run of the generator.\<close>

lemma generateSentence_cases:
  obtains (message) m where "generateSentence toUpperCase api c deps rule options cb = Some (placeholder cb m)"
  | (run) start where "generateSentence toUpperCase api c deps rule options cb = generate_all api cb options start"
proof (cases "isInterpreterDataLoaded c")
  case False
  then show ?thesis using message generateSentence_no_data by blast
next
  case loaded: True
  show ?thesis
  proof (cases "rule = []")
    case True
    then show ?thesis using message generateSentence_no_rule[OF loaded] by blast
  next
    case rule: False
    show ?thesis
    proof (cases "lexerDataFor c deps")
      case None
      then show ?thesis using message generateSentence_no_lexer[OF loaded rule] by blast
    next
      case (Some l)
      show ?thesis
      proof (cases "[hd rule] = toUpperCase [hd rule]")
        case True
        then have lex: "isLexerRule_of toUpperCase rule = Inr True" using rule by (simp add: isLexerRule_of_nonempty)
        show ?thesis
        proof (cases "grammarLexerRuleMap c rule")
          case None
          then show ?thesis using message generateSentence_no_token[OF loaded rule Some lex] by blast
        next
          case (Some index)
          then show ?thesis
            using run generateSentence_lexer_rule[OF loaded rule \<open>lexerDataFor c deps = Some l\<close> lex] by blast
        qed
      next
        case False
        then have lex: "isLexerRule_of toUpperCase rule = Inr False" using rule by (simp add: isLexerRule_of_nonempty)
        show ?thesis
        proof (cases "parserDataFor c")
          case None
          then show ?thesis using message generateSentence_no_parser[OF loaded rule Some lex] by blast
        next
          case p: (Some p)
          show ?thesis
          proof (cases "grammarParserRuleMap c rule")
            case None
            then show ?thesis
              using message generateSentence_no_parser_rule[OF loaded rule Some lex p] by blast
          next
            case (Some index)
            then show ?thesis
              using run generateSentence_parser_rule[OF loaded rule \<open>lexerDataFor c deps = Some l\<close> lex p]
              by blast
          qed
        qed
      qed
    qed
  qed
qed

lemma generateSentence_returns:
  assumes cb: "\<And>a i. cb a i = None"
    and r: "generateSentence toUpperCase api c deps rule options cb = Some r"
  shows "fst r = None"
proof (rule generateSentence_cases[of toUpperCase api c deps rule options cb])
  fix m assume "generateSentence toUpperCase api c deps rule options cb = Some (placeholder cb m)"
  with r show ?thesis by (auto simp add: placeholder_def cb)
next
  fix start assume "generateSentence toUpperCase api c deps rule options cb = generate_all api cb options start"
  with r show ?thesis using generate_all_returns[of cb api options start r, OF cb] by simp
qed

subsection \<open>The combined example grammar\<close>

lemma example_combined_fields:
  "isInterpreterDataLoaded example_combined"
  "lexerDataFor example_combined [] = Some example_data"
  "parserDataFor example_combined = Some example_data"
  "grammarParserRuleMap example_combined (utf16 ''r'') = Some 1"
  "grammarParserRuleMap example_combined (utf16 ''q'') = None"
  "isLexerRule_of example_toUpperCase (utf16 ''r'') = Inr False"
  "isLexerRule_of example_toUpperCase (utf16 ''q'') = Inr False"
  by code_simp+

lemma example_start: "nth_opt (ruleToStartState (atn example_data)) 1 = Some 2"
  by code_simp

lemma example_outcomes:
  "outcomes example_generator start gen n = replicate n (Inr (utf16 ''x y''))"
  by (induction n arbitrary: gen) (simp_all add: example_generator_def)

lemma example_count:
  "sentence_count \<lparr>count = Some (Finite 3), actionFile = None\<rparr> = Finite 3"
  by (simp add: sentence_count_def)

section \<open>Properties of the traversal\<close>

subsection \<open>The pipeline holds each state once\<close>

lemma queued_frame:
  "seenStates g1 = seenStates g \<Longrightarrow> pipeline g1 = pipeline g \<Longrightarrow> expanded g1 = expanded g
   \<Longrightarrow> queued g1 = queued g"
  by (simp add: queued_def)

lemma queued_addLink: "queued (addLink l g) = queued g"
  by (simp add: queued_def addLink_def)

lemma queued_pushState: "queued g \<Longrightarrow> queued (pushState n g)"
  by (auto simp add: queued_def pushState_def)

lemma ensureATNNode_queued:
  "ensureATNNode a names ident n g = Inr (k, g1) \<Longrightarrow> queued g1 = queued g"
  by (rule queued_frame) (simp_all add: ensureATNNode_frame)

lemma followTransition_queued:
  assumes "followTransition isLexerRule getDisplayName voc a names n k g tr = Inr g1" "queued g"
  shows "queued g1"
proof (rule followTransition_cases[OF assms(1)], goal_cases)
  case (1 ts ti g2)
  then show ?case using assms(2)
    by (simp add: queued_pushState queued_addLink ensureATNNode_queued)
next
  case (2 ts ti g2 f fs ri g3)
  have "queued g2" using ensureATNNode_queued[OF 2(3)] assms(2) by simp
  then have "queued g3" using ensureATNNode_queued[OF 2(6)] by (simp add: queued_addLink)
  then show ?case using 2(7) by (simp add: queued_pushState queued_addLink)
qed

lemma followTransitions_queued:
  "followTransitions isLexerRule getDisplayName voc a names n k g trs = Inr g1 \<Longrightarrow> queued g
   \<Longrightarrow> queued g1"
proof (induction trs arbitrary: g)
  case Nil
  then show ?case by simp
next
  case (Cons tr trs)
  then obtain g2 where g2: "followTransition isLexerRule getDisplayName voc a names n k g tr = Inr g2"
    and rest: "followTransitions isLexerRule getDisplayName voc a names n k g2 trs = Inr g1"
    by (cases "followTransition isLexerRule getDisplayName voc a names n k g tr") auto
  from Cons.IH[OF rest followTransition_queued[OF g2 Cons.prems(2)]] show ?case .
qed

lemma expandState_queued:
  assumes "expandState isLexerRule getDisplayName voc a names stopState (g\<lparr>pipeline := rest\<rparr>) n = Inr g1"
    and "queued g" "pipeline g = n # rest"
  shows "queued g1"
proof -
  have q: "queued (g\<lparr>pipeline := rest, expanded := expanded g @ [n]\<rparr>)"
    using assms(2,3) by (auto simp add: queued_def)
  show ?thesis
  proof (rule expandState_cases[OF assms(1)], goal_cases)
    case (1 state k)
    from ensureATNNode_queued[OF 1(3)] q show ?case by simp
  next
    case (2 state k g2)
    from ensureATNNode_queued[OF 2(3)] q have "queued g2" by simp
    from followTransitions_queued[OF 2(4) this] show ?case .
  qed
qed

lemma traverse_queued:
  "traverse isLexerRule getDisplayName voc a names stopState g = Inr g1 \<Longrightarrow> queued g
   \<Longrightarrow> queued g1 \<and> pipeline g1 = []"
proof (induction isLexerRule getDisplayName voc a names stopState g rule: traverse.induct)
  case (1 isLexerRule getDisplayName voc a names stopState g)
  show ?case
  proof (cases "pipeline g")
    case Nil
    then show ?thesis using "1.prems" by (simp add: traverse.simps)
  next
    case (Cons n rest)
    then obtain g2 where g2: "expandState isLexerRule getDisplayName voc a names stopState (g\<lparr>pipeline := rest\<rparr>) n = Inr g2"
      and t: "traverse isLexerRule getDisplayName voc a names stopState g2 = Inr g1"
      using "1.prems"(1)
      by (cases "expandState isLexerRule getDisplayName voc a names stopState (g\<lparr>pipeline := rest\<rparr>) n")
         (simp_all add: traverse.simps[of _ _ _ _ _ _ g])
    from "1.IH"[OF Cons g2 t expandState_queued[OF g2 "1.prems"(2) Cons]] show ?thesis .
  qed
qed


subsection \<open>The states seen are the successors of the states expanded\<close>

lemma seenStates_pushState: "seenStates (pushState n g) = insert n (seenStates g)"
  by (auto simp add: pushState_def)

lemma seenStates_addLink: "seenStates (addLink l g) = seenStates g"
  by (simp add: addLink_def)

lemma followTransition_seen:
  assumes "followTransition isLexerRule getDisplayName voc a names n k g tr = Inr g1"
  shows "\<exists>nx. nextState a tr = Some nx \<and> seenStates g1 = insert nx (seenStates g)"
proof (rule followTransition_cases[OF assms], goal_cases)
  case (1 ts ti g2)
  have "nextState a tr = Some (target tr)" using 1(1,2) by (simp add: nextState_def)
  moreover have "seenStates g1 = insert (target tr) (seenStates g)"
    using 1(4) ensureATNNode_frame(1)[OF 1(3)] by (simp add: seenStates_pushState seenStates_addLink)
  ultimately show ?case by blast
next
  case (2 ts ti g2 f fs ri g3)
  have "nextState a tr = Some f" using 2(1,2,4) by (simp add: nextState_def)
  moreover have "seenStates g1 = insert f (seenStates g)"
    using 2(7) ensureATNNode_frame(1)[OF 2(3)] ensureATNNode_frame(1)[OF 2(6)]
    by (simp add: seenStates_pushState seenStates_addLink)
  ultimately show ?case by blast
qed

lemma followTransitions_seen:
  "followTransitions isLexerRule getDisplayName voc a names n k g trs = Inr g1
   \<Longrightarrow> seenStates g1 = seenStates g \<union> {nx. \<exists>tr \<in> set trs. nextState a tr = Some nx}"
proof (induction trs arbitrary: g)
  case Nil
  then show ?case by simp
next
  case (Cons tr trs)
  then obtain g2 where g2: "followTransition isLexerRule getDisplayName voc a names n k g tr = Inr g2"
    and rest: "followTransitions isLexerRule getDisplayName voc a names n k g2 trs = Inr g1"
    by (cases "followTransition isLexerRule getDisplayName voc a names n k g tr") auto
  from followTransition_seen[OF g2] obtain nx where
    nx: "nextState a tr = Some nx" "seenStates g2 = insert nx (seenStates g)" by blast
  from Cons.IH[OF rest] nx show ?case by auto
qed

lemma expandState_seen:
  assumes "expandState isLexerRule getDisplayName voc a names stopState g n = Inr g1"
  shows "seenStates g1 = seenStates g \<union> succs a stopState n"
proof (rule expandState_cases[OF assms], goal_cases)
  case (1 state k)
  from ensureATNNode_frame(1)[OF 1(3)] 1(2) show ?case by (simp add: succs_def)
next
  case (2 state k g2)
  from followTransitions_seen[OF 2(4)] ensureATNNode_frame(1)[OF 2(3)] 2(1,2)
  show ?case by (auto simp add: succs_def)
qed

lemma expandState_expanded:
  assumes "expandState isLexerRule getDisplayName voc a names stopState g n = Inr g1"
  shows "expanded g1 = expanded g @ [n]"
proof -
  have ft: "expanded g' = expanded g0" if "followTransition isLexerRule getDisplayName voc a names n k g0 tr = Inr g'"
    for k g0 tr g'
  proof (rule followTransition_cases[OF that], goal_cases)
    case (1 ts ti g2)
    then show ?case using ensureATNNode_frame(3)[OF 1(3)] by (simp add: pushState_def addLink_def)
  next
    case (2 ts ti g2 f fs ri g3)
    then show ?case using ensureATNNode_frame(3)[OF 2(3)] ensureATNNode_frame(3)[OF 2(6)]
      by (simp add: pushState_def addLink_def)
  qed
  have fts: "followTransitions isLexerRule getDisplayName voc a names n k g0 trs = Inr g' \<Longrightarrow> expanded g' = expanded g0"
    for k g0 trs g'
  proof (induction trs arbitrary: g0)
    case Nil
    then show ?case by simp
  next
    case (Cons tr trs)
    then obtain g2 where g2: "followTransition isLexerRule getDisplayName voc a names n k g0 tr = Inr g2"
      and rest: "followTransitions isLexerRule getDisplayName voc a names n k g2 trs = Inr g'"
      by (cases "followTransition isLexerRule getDisplayName voc a names n k g0 tr") auto
    from Cons.IH[OF rest] ft[OF g2] show ?case by simp
  qed
  show ?thesis
  proof (rule expandState_cases[OF assms], goal_cases)
    case (1 state k)
    from ensureATNNode_frame(3)[OF 1(3)] show ?case by simp
  next
    case (2 state k g2)
    from fts[OF 2(4)] ensureATNNode_frame(3)[OF 2(3)] show ?case by simp
  qed
qed

text \<open>An invariant of the turns of the loop holds when the loop has ended.\<close>

lemma traverse_invariant:
  "\<forall>g n rest g1. I g \<and> pipeline g = n # rest
      \<and> expandState isLexerRule getDisplayName voc a names stopState (g\<lparr>pipeline := rest\<rparr>) n = Inr g1
      \<longrightarrow> I g1
   \<Longrightarrow> traverse isLexerRule getDisplayName voc a names stopState g = Inr g1 \<Longrightarrow> I g
   \<Longrightarrow> I g1 \<and> pipeline g1 = []"
proof (induction isLexerRule getDisplayName voc a names stopState g rule: traverse.induct)
  case (1 isLexerRule getDisplayName voc a names stopState g)
  show ?case
  proof (cases "pipeline g")
    case Nil
    then show ?thesis using "1.prems"(2,3) by (simp add: traverse.simps)
  next
    case (Cons n rest)
    then obtain g2 where g2: "expandState isLexerRule getDisplayName voc a names stopState (g\<lparr>pipeline := rest\<rparr>) n = Inr g2"
      and t: "traverse isLexerRule getDisplayName voc a names stopState g2 = Inr g1"
      using "1.prems"(2)
      by (cases "expandState isLexerRule getDisplayName voc a names stopState (g\<lparr>pipeline := rest\<rparr>) n")
         (simp_all add: traverse.simps[of _ _ _ _ _ _ g])
    have "I g2" using "1.prems"(1) "1.prems"(3) Cons g2 by blast
    from "1.IH"[OF Cons g2 "1.prems"(1) t this] show ?thesis by blast
  qed
qed

lemma stateTypeValue_not_13: "stateTypeValue t \<noteq> 13"
  by (cases t) simp_all

lemma stateNodeIds_withNode: "stateNodeIds (withNode ident state g) = stateNodeIds g @ [ident]"
  by (simp add: stateNodeIds_def stateNodes_def withNode_def stateTypeValue_not_13)

lemma stateNodeIds_withRuleNode: "stateNodeIds (withRuleNode names m callee g) = stateNodeIds g"
  by (simp add: stateNodeIds_def stateNodes_def withRuleNode_def)

lemma dom_withNode: "dom (stateToIndex (withNode ident state g)) = insert ident (dom (stateToIndex g))"
  by (simp add: withNode_def)

lemma dom_withRuleNode: "dom (stateToIndex (withRuleNode names m callee g)) = insert m (dom (stateToIndex g))"
  by (simp add: withRuleNode_def)

lemma owns_mono:
  "owns a g owner key \<Longrightarrow> dom (stateToIndex g) \<subseteq> dom (stateToIndex g1) \<Longrightarrow> owns a g1 owner key"
  unfolding owns_def by blast

lemma charged_mono: "charged a S g \<Longrightarrow> S \<subseteq> S' \<Longrightarrow> charged a S' g"
  unfolding charged_def by blast

lemma charged_frame:
  "nodes g1 = nodes g \<Longrightarrow> stateToIndex g1 = stateToIndex g \<Longrightarrow> charged a S g1 = charged a S g"
  by (simp add: charged_def stateNodeIds_def owns_def)

lemma charged_extend:
  assumes c: "charged a S g"
    and ids: "stateNodeIds g1 = stateNodeIds g @ [key]"
    and dom: "dom (stateToIndex g) \<subseteq> dom (stateToIndex g1)" "key \<notin> dom (stateToIndex g)"
      "key \<in> dom (stateToIndex g1)"
    and owner: "owner \<in> S" "owns a g1 owner key"
    and fresh: "\<And>k. k \<in> set (stateNodeIds g) \<Longrightarrow> \<not> owns a g owner k"
  shows "charged a S g1"
proof -
  from c obtain f where f: "distinct (stateNodeIds g)" "set (stateNodeIds g) \<subseteq> dom (stateToIndex g)"
    "inj_on f (set (stateNodeIds g))" "\<forall>k \<in> set (stateNodeIds g). f k \<in> S \<and> owns a g (f k) k"
    unfolding charged_def by blast
  have new: "key \<notin> set (stateNodeIds g)" using f(2) dom(2) by blast
  let ?f = "f(key := owner)"
  have notin: "owner \<notin> f ` set (stateNodeIds g)"
  proof
    assume "owner \<in> f ` set (stateNodeIds g)"
    then obtain k where k: "k \<in> set (stateNodeIds g)" "f k = owner" by blast
    with f(4) have "owns a g owner k" by auto
    with fresh[OF k(1)] show False by simp
  qed
  have inj: "inj_on ?f (set (stateNodeIds g1))"
    unfolding ids using f(3) new notin by (auto simp add: inj_on_def)
  have all: "\<forall>k \<in> set (stateNodeIds g1). ?f k \<in> S \<and> owns a g1 (?f k) k"
  proof
    fix k assume k: "k \<in> set (stateNodeIds g1)"
    show "?f k \<in> S \<and> owns a g1 (?f k) k"
    proof (cases "k = key")
      case True
      then show ?thesis using owner by simp
    next
      case False
      then have "k \<in> set (stateNodeIds g)" using k ids by simp
      with f(4) have "f k \<in> S" "owns a g (f k) k" by auto
      then show ?thesis using False owns_mono[OF _ dom(1)] by simp
    qed
  qed
  have "distinct (stateNodeIds g1)" unfolding ids using f(1) new by simp
  moreover have "set (stateNodeIds g1) \<subseteq> dom (stateToIndex g1)"
    unfolding ids using f(2) dom(1,3) by auto
  ultimately show ?thesis unfolding charged_def using inj all by blast
qed


lemma ensureATNNode_dom:
  assumes "ensureATNNode a names ident n g = Inr (k, g1)"
  shows "dom (stateToIndex g) \<subseteq> dom (stateToIndex g1)" and "ident \<in> dom (stateToIndex g1)"
proof -
  show "dom (stateToIndex g) \<subseteq> dom (stateToIndex g1)"
    by (rule ensureATNNode_cases[OF assms]) (auto simp add: dom_withNode dom_withRuleNode)
  show "ident \<in> dom (stateToIndex g1)"
    by (rule ensureATNNode_cases[OF assms]) (auto simp add: dom_withNode dom_withRuleNode)
qed

text \<open>A node made for a state under the state's own number.\<close>

lemma charged_own:
  assumes c: "charged a S g" and e: "ensureATNNode a names n n g = Inr (k, g1)"
  shows "charged a (insert n S) g1"
proof (rule ensureATNNode_cases[OF e], goal_cases)
  case 1
  then show ?case using charged_mono[OF c, of "insert n S"] by auto
next
  case (2 state)
  have m: "markerOf a n = None" using 2(2,3) by (simp add: markerOf_def)
  show ?case
  proof (rule charged_extend[where g = g and key = n and owner = n])
    show "charged a (insert n S) g" using charged_mono[OF c, of "insert n S"] by auto
    show "stateNodeIds g1 = stateNodeIds g @ [n]" using 2(5) by (simp add: stateNodeIds_withNode)
    show "dom (stateToIndex g) \<subseteq> dom (stateToIndex g1)" using 2(5) by (auto simp add: dom_withNode)
    show "n \<notin> dom (stateToIndex g)" using 2(1) by auto
    show "n \<in> dom (stateToIndex g1)" using 2(5) by (simp add: dom_withNode)
    show "n \<in> insert n S" by simp
    show "owns a g1 n n" using 2(5) m by (simp add: owns_def dom_withNode)
    show "\<And>k. k \<in> set (stateNodeIds g) \<Longrightarrow> \<not> owns a g n k"
      using 2(1) by (auto simp add: owns_def)
  qed
next
  case (3 state t callee)
  have m: "markerOf a n = Some (n * t)" using 3(2,3) by (simp add: markerOf_def)
  show ?case
  proof (rule charged_extend[where g = g and key = n and owner = n])
    show "charged a (insert n S) g" using charged_mono[OF c, of "insert n S"] by auto
    show "stateNodeIds g1 = stateNodeIds g @ [n]"
      using 3(5) by (simp add: stateNodeIds_withNode stateNodeIds_withRuleNode)
    show "dom (stateToIndex g) \<subseteq> dom (stateToIndex g1)"
      using 3(5) by (auto simp add: dom_withNode dom_withRuleNode)
    show "n \<notin> dom (stateToIndex g)" using 3(1) by auto
    show "n \<in> dom (stateToIndex g1)" using 3(5) by (simp add: dom_withNode dom_withRuleNode)
    show "n \<in> insert n S" by simp
    show "owns a g1 n n" using 3(5) m by (simp add: owns_def dom_withNode dom_withRuleNode)
    show "\<And>k. k \<in> set (stateNodeIds g) \<Longrightarrow> \<not> owns a g n k"
      using 3(1) by (auto simp add: owns_def)
  qed
qed

text \<open>A node made for the start state of a called rule under the product of the numbers
  of the calling state \<open>s\<close> and of that start state.\<close>

lemma charged_marker:
  assumes c: "charged a S g" and s: "s \<in> S" "s \<in> dom (stateToIndex g)"
    and m: "markerOf a s = Some (s * t)"
    and e: "ensureATNNode a names (t * s) t g = Inr (k, g1)"
  shows "charged a S g1"
proof -
  have sub: "set (stateNodeIds g) \<subseteq> dom (stateToIndex g)" using c by (simp add: charged_def)
  have ext: "charged a S g1"
    if new: "stateToIndex g (t * s) = None" and ids: "stateNodeIds g1 = stateNodeIds g @ [t * s]"
      and d: "dom (stateToIndex g) \<subseteq> dom (stateToIndex g1)" "t * s \<in> dom (stateToIndex g1)"
  proof (rule charged_extend[where g = g and key = "t * s" and owner = s])
    show "charged a S g" by (rule c)
    show "stateNodeIds g1 = stateNodeIds g @ [t * s]" by (rule ids)
    show "dom (stateToIndex g) \<subseteq> dom (stateToIndex g1)" by (rule d(1))
    show "t * s \<notin> dom (stateToIndex g)" using new by auto
    show "t * s \<in> dom (stateToIndex g1)" by (rule d(2))
    show "s \<in> S" by (rule s(1))
    show "owns a g1 s (t * s)"
      unfolding owns_def using s(2) d m by (auto simp add: mult.commute)
    show "\<not> owns a g s k'" if k': "k' \<in> set (stateNodeIds g)" for k'
    proof
      assume o: "owns a g s k'"
      have kd: "k' \<in> dom (stateToIndex g)" using k' sub by blast
      have "s * t \<in> dom (stateToIndex g)"
      proof (cases "s = k'")
        case True
        then show ?thesis using o m unfolding owns_def by blast
      next
        case False
        then have "markerOf a s = Some k'" using o unfolding owns_def by blast
        then show ?thesis using m kd by simp
      qed
      then show False using new by (auto simp add: mult.commute)
    qed
  qed
  show ?thesis
  proof (rule ensureATNNode_cases[OF e], goal_cases)
    case 1
    then show ?case using c by simp
  next
    case (2 state)
    show ?case
      by (rule ext) (use 2 in \<open>auto simp add: stateNodeIds_withNode dom_withNode\<close>)
  next
    case (3 state t' callee)
    show ?case
      by (rule ext)
         (use 3 in \<open>auto simp add: stateNodeIds_withNode stateNodeIds_withRuleNode dom_withNode dom_withRuleNode\<close>)
  qed
qed

lemma callSitesSingleEverywhere:
  assumes "callSitesSingleEverywhere a"
  shows "callSitesSingle a startState stopState"
  unfolding callSitesSingle_def
proof (intro ballI allI impI)
  fix n state assume "stateAt a n = Some state"
  then have "state \<in> set (states a)" by (auto simp add: stateAt_def split: if_splits)
  with assms show "callsAlone a state" by (simp add: callSitesSingleEverywhere_def list_all_iff)
qed

lemma callSitesSingle_markerOf:
  assumes w: "callsAlone a state" and st: "stateAt a n = Some state" "tr \<in> set (transitions state)"
    and ts: "stateAt a (target tr) = Some targetState" "stateType targetState = RULE_START"
  shows "markerOf a n = Some (n * target tr)"
proof -
  from w st(2) have "case stateAt a (target tr) of
                          None \<Rightarrow> True
                        | Some targetState \<Rightarrow>
                            stateType targetState \<noteq> RULE_START \<or> transitions state = [tr]"
    unfolding callsAlone_def list_all_iff by blast
  with ts have "transitions state = [tr]" by simp
  then have "calledRule a state = Some (target tr, targetState)" using ts by (simp add: calledRule_def)
  then show ?thesis using st(1) by (simp add: markerOf_def)
qed

lemma pushState_frame:
  "nodes (pushState n g) = nodes g" "stateToIndex (pushState n g) = stateToIndex g"
  "links (pushState n g) = links g"
  by (simp_all add: pushState_def)

lemma addLink_frame:
  "nodes (addLink l g) = nodes g" "stateToIndex (addLink l g) = stateToIndex g"
  "seenStates (addLink l g) = seenStates g"
  by (simp_all add: addLink_def)

lemma followTransition_charged:
  assumes w: "callsAlone a state" and st: "stateAt a n = Some state" "tr \<in> set (transitions state)"
    and c: "charged a (seenStates g) g" and n: "n \<in> seenStates g" "n \<in> dom (stateToIndex g)"
    and f: "followTransition isLexerRule getDisplayName voc a names n k g tr = Inr g1"
  shows "charged a (seenStates g1) g1 \<and> n \<in> seenStates g1 \<and> n \<in> dom (stateToIndex g1)"
proof (rule followTransition_cases[OF f], goal_cases)
  case (1 ts ti g2)
  have s2: "seenStates g2 = seenStates g" by (rule ensureATNNode_frame(1)[OF 1(3)])
  have c2: "charged a (insert (target tr) (seenStates g)) g2" by (rule charged_own[OF c 1(3)])
  have "charged a (seenStates g1) g1 = charged a (seenStates g1) g2"
    by (rule charged_frame) (simp_all add: 1(4) pushState_frame addLink_frame)
  moreover have "seenStates g1 = insert (target tr) (seenStates g)"
    by (simp add: 1(4) seenStates_pushState addLink_frame s2)
  moreover have "stateToIndex g1 = stateToIndex g2" by (simp add: 1(4) pushState_frame addLink_frame)
  ultimately show ?case using c2 n ensureATNNode_dom(1)[OF 1(3)] by auto
next
  case (2 ts ti g2 fo fs ri g3)
  have m: "markerOf a n = Some (n * target tr)"
    by (rule callSitesSingle_markerOf[OF w st 2(1) 2(2)])
  have s2: "seenStates g2 = seenStates g" by (rule ensureATNNode_frame(1)[OF 2(3)])
  have c2: "charged a (seenStates g) g2" by (rule charged_marker[OF c n m 2(3)])
  let ?g2 = "addLink \<lparr>source = k, link_target = ti, link_type = serializationType tr,
                      labels = link_labels isLexerRule getDisplayName voc tr\<rparr> g2"
  have "charged a (seenStates g) ?g2 = charged a (seenStates g) g2"
    by (rule charged_frame) (simp_all add: addLink_frame)
  with c2 have c2': "charged a (seenStates g) ?g2" by simp
  have c3: "charged a (insert fo (seenStates g)) g3" by (rule charged_own[OF c2' 2(6)])
  have s3: "seenStates g3 = seenStates g"
    using ensureATNNode_frame(1)[OF 2(6)] s2 by (simp add: addLink_frame)
  have "charged a (seenStates g1) g1 = charged a (seenStates g1) g3"
    by (rule charged_frame) (simp_all add: 2(7) pushState_frame addLink_frame)
  moreover have "seenStates g1 = insert fo (seenStates g)"
    by (simp add: 2(7) seenStates_pushState addLink_frame s3)
  moreover have "stateToIndex g1 = stateToIndex g3" by (simp add: 2(7) pushState_frame addLink_frame)
  moreover have "dom (stateToIndex g) \<subseteq> dom (stateToIndex g3)"
    using ensureATNNode_dom(1)[OF 2(3)] ensureATNNode_dom(1)[OF 2(6)] by (auto simp add: addLink_frame)
  ultimately show ?case using c3 n by auto
qed

lemma followTransitions_charged:
  "callsAlone a state \<Longrightarrow> stateAt a n = Some state \<Longrightarrow> set trs \<subseteq> set (transitions state)
   \<Longrightarrow> charged a (seenStates g) g \<Longrightarrow> n \<in> seenStates g \<Longrightarrow> n \<in> dom (stateToIndex g)
   \<Longrightarrow> followTransitions isLexerRule getDisplayName voc a names n k g trs = Inr g1
   \<Longrightarrow> charged a (seenStates g1) g1"
proof (induction trs arbitrary: g)
  case Nil
  then show ?case by simp
next
  case (Cons tr trs)
  then obtain g2 where g2: "followTransition isLexerRule getDisplayName voc a names n k g tr = Inr g2"
    and rest: "followTransitions isLexerRule getDisplayName voc a names n k g2 trs = Inr g1"
    by (cases "followTransition isLexerRule getDisplayName voc a names n k g tr") auto
  have tr: "tr \<in> set (transitions state)" and trs: "set trs \<subseteq> set (transitions state)"
    using Cons.prems(3) by auto
  from followTransition_charged[OF Cons.prems(1) Cons.prems(2) tr Cons.prems(4) Cons.prems(5) Cons.prems(6) g2]
  have "charged a (seenStates g2) g2" "n \<in> seenStates g2" "n \<in> dom (stateToIndex g2)" by auto
  from Cons.IH[OF Cons.prems(1) Cons.prems(2) trs this rest] show ?case .
qed

lemma expandState_charged:
  assumes w: "\<forall>state. stateAt a n = Some state \<longrightarrow> callsAlone a state" and c: "charged a (seenStates g) g" and n: "n \<in> seenStates g"
    and e: "expandState isLexerRule getDisplayName voc a names stopState g n = Inr g1"
  shows "charged a (seenStates g1) g1"
proof -
  let ?g = "g\<lparr>expanded := expanded g @ [n]\<rparr>"
  have "charged a (seenStates g) ?g = charged a (seenStates g) g" by (rule charged_frame) simp_all
  with c have c0: "charged a (seenStates g) ?g" by simp
  have ins: "insert n (seenStates g) = seenStates g" using n by auto
  show ?thesis
  proof (rule expandState_cases[OF e], goal_cases)
    case (1 state k)
    from charged_own[OF c0 1(3)] ins ensureATNNode_frame(1)[OF 1(3)] show ?case by simp
  next
    case (2 state k g2)
    have s2: "seenStates g2 = seenStates g" using ensureATNNode_frame(1)[OF 2(3)] by simp
    from charged_own[OF c0 2(3)] ins s2 have c2: "charged a (seenStates g2) g2" by simp
    have n2: "n \<in> seenStates g2" "n \<in> dom (stateToIndex g2)"
      using n s2 ensureATNNode_dom(2)[OF 2(3)] by simp_all
    have "callsAlone a state" using w 2(1) by blast
    then show ?case
      by (rule followTransitions_charged[OF _ 2(1) subset_refl c2 n2 2(4)])
  qed
qed

lemma succs_reachable:
  "n \<in> reachable a startState stopState \<Longrightarrow> succs a stopState n \<subseteq> reachable a startState stopState"
proof
  fix x assume n: "n \<in> reachable a startState stopState" and x: "x \<in> succs a stopState n"
  from x have ns: "Some n \<noteq> stopState" by (auto simp add: succs_def split: if_splits)
  with x obtain state tr where "stateAt a n = Some state" "tr \<in> set (transitions state)"
    "nextState a tr = Some x" by (auto simp add: succs_def)
  then show "x \<in> reachable a startState stopState" by (rule reachable.step[OF n ns])
qed

lemma explored_step:
  assumes i: "explored a startState stopState g"
    and p: "pipeline g = n # rest"
    and e: "expandState isLexerRule getDisplayName voc a names stopState (g\<lparr>pipeline := rest\<rparr>) n = Inr g1"
  shows "explored a startState stopState g1"
proof -
  have q: "queued g" and s: "startState \<in> seenStates g"
    and r: "seenStates g \<subseteq> reachable a startState stopState"
    and cl: "\<forall>s \<in> set (expanded g). succs a stopState s \<subseteq> seenStates g"
    using i by (simp_all add: explored_def)
  have n: "n \<in> seenStates g" using q p by (simp add: queued_def)
  have seen: "seenStates g1 = seenStates g \<union> succs a stopState n"
    using expandState_seen[OF e] by simp
  have ex: "expanded g1 = expanded g @ [n]" using expandState_expanded[OF e] by simp
  have "queued g1" by (rule expandState_queued[OF e q p])
  moreover have "startState \<in> seenStates g1" using s seen by simp
  moreover have "seenStates g1 \<subseteq> reachable a startState stopState"
  proof -
    have "n \<in> reachable a startState stopState" using r n by blast
    from succs_reachable[OF this] r seen show ?thesis by simp
  qed
  moreover have "\<forall>s \<in> set (expanded g1). succs a stopState s \<subseteq> seenStates g1"
    using cl seen ex by auto
  ultimately show ?thesis by (simp add: explored_def)
qed

lemma traversal_step:
  assumes w: "callSitesSingle a startState stopState" and i: "traversal a startState stopState g"
    and p: "pipeline g = n # rest"
    and e: "expandState isLexerRule getDisplayName voc a names stopState (g\<lparr>pipeline := rest\<rparr>) n = Inr g1"
  shows "traversal a startState stopState g1"
proof -
  have x: "explored a startState stopState g" and c: "charged a (seenStates g) g"
    using i by (simp_all add: traversal_def)
  have n: "n \<in> seenStates g" using x p by (simp add: explored_def queued_def)
  have r: "n \<in> reachable a startState stopState" using x n by (auto simp add: explored_def)
  have "charged a (seenStates (g\<lparr>pipeline := rest\<rparr>)) (g\<lparr>pipeline := rest\<rparr>) = charged a (seenStates g) g"
    by (simp, rule charged_frame) simp_all
  with c have c0: "charged a (seenStates (g\<lparr>pipeline := rest\<rparr>)) (g\<lparr>pipeline := rest\<rparr>)" by simp
  have "charged a (seenStates g1) g1"
  proof (rule expandState_charged[OF _ c0 _ e])
    show "\<forall>state. stateAt a n = Some state \<longrightarrow> callsAlone a state"
      using w r by (simp add: callSitesSingle_def)
    show "n \<in> seenStates (g\<lparr>pipeline := rest\<rparr>)" by (simp add: n)
  qed
  with explored_step[OF x p e] show ?thesis by (simp add: traversal_def)
qed

lemma explored_initial:
  "explored a startState stopState
     \<lparr>nodes = [], links = [], stateToIndex = Map.empty, currentRuleIndex = - 1,
      seenStates = {startState}, pipeline = [startState], expanded = []\<rparr>"
  by (simp add: explored_def queued_def reachable.start)

lemma traversal_initial:
  "traversal a startState stopState
     \<lparr>nodes = [], links = [], stateToIndex = Map.empty, currentRuleIndex = - 1,
      seenStates = {startState}, pipeline = [startState], expanded = []\<rparr>"
  by (simp add: traversal_def explored_initial charged_def stateNodeIds_def stateNodes_def)

lemma explored_final:
  assumes i: "explored a startState stopState g" and p: "pipeline g = []"
  shows "seenStates g = set (expanded g)"
    and "set (expanded g) = reachable a startState stopState"
proof -
  have q: "queued g" and s: "startState \<in> seenStates g"
    and r: "seenStates g \<subseteq> reachable a startState stopState"
    and cl: "\<forall>s \<in> set (expanded g). succs a stopState s \<subseteq> seenStates g"
    using i by (simp_all add: explored_def)
  show seen: "seenStates g = set (expanded g)" using q p by (simp add: queued_def)
  have "x \<in> seenStates g" if "x \<in> reachable a startState stopState" for x
    using that
  proof (induction rule: reachable.induct)
    case start
    show ?case by (rule s)
  next
    case (step s' state tr n)
    have "n \<in> succs a stopState s'" using step.hyps(2,3,4,5) by (auto simp add: succs_def)
    then show ?case using cl step.IH seen by auto
  qed
  with r have "seenStates g = reachable a startState stopState" by blast
  then show "set (expanded g) = reachable a startState stopState" using seen by simp
qed

lemma traversal_final:
  assumes i: "traversal a startState stopState g" and p: "pipeline g = []"
  shows "length (stateNodes (nodes g)) \<le> card (reachable a startState stopState)"
proof -
  have x: "explored a startState stopState g" and c: "charged a (seenStates g) g"
    using i by (simp_all add: traversal_def)
  note seen = explored_final(1)[OF x p] and eq = explored_final(2)[OF x p]
  from c obtain f where f: "distinct (stateNodeIds g)" "inj_on f (set (stateNodeIds g))"
    "\<forall>k \<in> set (stateNodeIds g). f k \<in> seenStates g"
    unfolding charged_def by blast
  have "length (stateNodes (nodes g)) = length (stateNodeIds g)" by (simp add: stateNodeIds_def)
  also have "\<dots> = card (set (stateNodeIds g))" using f(1) by (simp add: distinct_card)
  also have "\<dots> = card (f ` set (stateNodeIds g))" using f(2) by (simp add: card_image)
  also have "\<dots> \<le> card (seenStates g)"
    by (rule card_mono) (use f(3) seen in auto)
  finally show ?thesis using seen eq by simp
qed

lemma nodes_split: "length ns = length (stateNodes ns) + length (ruleNodes ns)"
  unfolding stateNodes_def ruleNodes_def
  using sum_length_filter_compl[of "\<lambda>nd. node_type nd \<noteq> 13" ns] by simp

lemma extractGraph_reachable:
  assumes s: "nth_opt (ruleToStartState (atn data)) index = Some startState"
    and e: "extractGraph isLexerRule getDisplayName data index = Inr g"
  shows "set (expanded g) = reachable (atn data) startState (nth_opt (ruleToStopState (atn data)) index)"
proof -
  let ?stop = "nth_opt (ruleToStopState (atn data)) index"
  let ?g0 = "\<lparr>nodes = [], links = [], stateToIndex = Map.empty, currentRuleIndex = - 1,
             seenStates = {startState}, pipeline = [startState], expanded = []\<rparr>"
  have t: "traverse isLexerRule getDisplayName (vocabulary data) (atn data) (ruleNames data) ?stop ?g0 = Inr g"
    using e s by (simp add: extractGraph_def)
  have step: "\<forall>g n rest g1. explored (atn data) startState ?stop g \<and> pipeline g = n # rest
      \<and> expandState isLexerRule getDisplayName (vocabulary data) (atn data) (ruleNames data) ?stop
           (g\<lparr>pipeline := rest\<rparr>) n = Inr g1
      \<longrightarrow> explored (atn data) startState ?stop g1"
  proof (intro allI impI, elim conjE)
    fix g0 n rest g1
    assume "explored (atn data) startState ?stop g0" "pipeline g0 = n # rest"
      "expandState isLexerRule getDisplayName (vocabulary data) (atn data) (ruleNames data) ?stop
           (g0\<lparr>pipeline := rest\<rparr>) n = Inr g1"
    then show "explored (atn data) startState ?stop g1" by (rule explored_step)
  qed
  from traverse_invariant[where I = "explored (atn data) startState ?stop", OF step t explored_initial]
  have i: "explored (atn data) startState ?stop g" and p: "pipeline g = []" by simp_all
  show ?thesis by (rule explored_final(2)[OF i p])
qed

lemma extractGraph_traversal:
  assumes w: "callSitesSingle (atn data) startState (nth_opt (ruleToStopState (atn data)) index)"
    and s: "nth_opt (ruleToStartState (atn data)) index = Some startState"
    and e: "extractGraph isLexerRule getDisplayName data index = Inr g"
  shows "length (nodes g)
           \<le> card (reachable (atn data) startState (nth_opt (ruleToStopState (atn data)) index))
             + length (ruleNodes (nodes g))"
proof -
  let ?stop = "nth_opt (ruleToStopState (atn data)) index"
  let ?g0 = "\<lparr>nodes = [], links = [], stateToIndex = Map.empty, currentRuleIndex = - 1,
             seenStates = {startState}, pipeline = [startState], expanded = []\<rparr>"
  have t: "traverse isLexerRule getDisplayName (vocabulary data) (atn data) (ruleNames data) ?stop ?g0 = Inr g"
    using e s by (simp add: extractGraph_def)
  have step: "\<forall>g n rest g1. traversal (atn data) startState ?stop g \<and> pipeline g = n # rest
      \<and> expandState isLexerRule getDisplayName (vocabulary data) (atn data) (ruleNames data) ?stop
           (g\<lparr>pipeline := rest\<rparr>) n = Inr g1
      \<longrightarrow> traversal (atn data) startState ?stop g1"
  proof (intro allI impI, elim conjE)
    fix g0 n rest g1
    assume "traversal (atn data) startState ?stop g0" "pipeline g0 = n # rest"
      "expandState isLexerRule getDisplayName (vocabulary data) (atn data) (ruleNames data) ?stop
           (g0\<lparr>pipeline := rest\<rparr>) n = Inr g1"
    then show "traversal (atn data) startState ?stop g1" by (rule traversal_step[OF w])
  qed
  from traverse_invariant[where I = "traversal (atn data) startState ?stop", OF step t traversal_initial]
  have i: "traversal (atn data) startState ?stop g" and p: "pipeline g = []" by simp_all
  show ?thesis using traversal_final[OF i p] nodes_split[of "nodes g"] by simp
qed

lemma extractGraph_distinct:
  assumes s: "nth_opt (ruleToStartState (atn data)) index = Some startState"
    and e: "extractGraph isLexerRule getDisplayName data index = Inr g"
  shows "distinct (expanded g)"
proof -
  let ?stop = "nth_opt (ruleToStopState (atn data)) index"
  let ?g0 = "\<lparr>nodes = [], links = [], stateToIndex = Map.empty, currentRuleIndex = - 1,
             seenStates = {startState}, pipeline = [startState], expanded = []\<rparr>"
  have t: "traverse isLexerRule getDisplayName (vocabulary data) (atn data) (ruleNames data) ?stop ?g0 = Inr g"
    using e s by (simp add: extractGraph_def)
  have "queued ?g0" by (simp add: queued_def)
  from traverse_queued[OF t this] show ?thesis by (simp add: queued_def)
qed

lemma expandState_stop:
  assumes "Some n = stopState"
    and e: "expandState isLexerRule getDisplayName voc a names stopState g n = Inr g1"
  shows "links g1 = links g \<and> pipeline g1 = pipeline g \<and> seenStates g1 = seenStates g"
proof (rule expandState_cases[OF e], goal_cases)
  case (1 state k)
  from ensureATNNode_frame[OF 1(3)] show ?case by simp
next
  case (2 state k g2)
  then show ?case using assms(1) by simp
qed

subsection \<open>The graph of the example grammar\<close>

lemma example_graph_size:
  "map_sum (\<lambda>e. e) (map_option (\<lambda>graph. (length (graph_nodes graph), length (ruleNodes (graph_nodes graph)))))
     (getATNGraph example_toUpperCase example_displayName example_loaded (utf16 ''r'')) = Inr (Some (12, 2))"
  by code_simp

subsection \<open>The states are expanded in the order in which they are reached\<close>

lemma pushState_worklist:
  assumes "seenStates g = set (worklist g)"
  shows "worklist (pushState x g) = enqueue x (worklist g)"
    and "seenStates (pushState x g) = set (worklist (pushState x g))"
  using assms by (auto simp add: pushState_def enqueue_def worklist_def)

lemma worklist_frame:
  "pipeline g1 = pipeline g \<Longrightarrow> expanded g1 = expanded g \<Longrightarrow> worklist g1 = worklist g"
  by (simp add: worklist_def)

lemma worklist_addLink: "worklist (addLink l g) = worklist g"
  by (simp add: worklist_def addLink_def)

lemma followTransition_worklist:
  assumes f: "followTransition isLexerRule getDisplayName voc a names n k g tr = Inr g1"
    and s: "seenStates g = set (worklist g)"
  shows "\<exists>x. nextState a tr = Some x \<and> worklist g1 = enqueue x (worklist g)
             \<and> seenStates g1 = set (worklist g1)"
proof (rule followTransition_cases[OF f], goal_cases)
  case (1 ts ti g2)
  let ?g = "addLink \<lparr>source = k, link_target = ti, link_type = serializationType tr,
                      labels = link_labels isLexerRule getDisplayName voc tr\<rparr> g2"
  have nx: "nextState a tr = Some (target tr)" using 1(1,2) by (simp add: nextState_def)
  have w: "worklist ?g = worklist g"
    unfolding worklist_addLink by (rule worklist_frame[OF ensureATNNode_frame(2,3)[OF 1(3)]])
  have "seenStates ?g = seenStates g"
    using ensureATNNode_frame(1)[OF 1(3)] by (simp add: seenStates_addLink)
  with s w have s2: "seenStates ?g = set (worklist ?g)" by simp
  from pushState_worklist[OF s2, of "target tr"] w 1(4) nx show ?case by simp
next
  case (2 ts ti g2 f fs ri g3)
  let ?g2 = "addLink \<lparr>source = k, link_target = ti, link_type = serializationType tr,
                       labels = link_labels isLexerRule getDisplayName voc tr\<rparr> g2"
  let ?g = "addLink \<lparr>source = ti, link_target = ri, link_type = RULE, labels = [epsilon_label]\<rparr> g3"
  have nx: "nextState a tr = Some f" using 2(1,2,4) by (simp add: nextState_def)
  have w2: "worklist ?g2 = worklist g"
    unfolding worklist_addLink by (rule worklist_frame[OF ensureATNNode_frame(2,3)[OF 2(3)]])
  have w3: "worklist g3 = worklist ?g2"
    by (rule worklist_frame[OF ensureATNNode_frame(2,3)[OF 2(6)]])
  have w: "worklist ?g = worklist g" using w2 w3 by (simp add: worklist_addLink)
  have "seenStates ?g = seenStates g"
    using ensureATNNode_frame(1)[OF 2(3)] ensureATNNode_frame(1)[OF 2(6)]
    by (simp add: seenStates_addLink)
  with s w have s2: "seenStates ?g = set (worklist ?g)" by simp
  from pushState_worklist[OF s2, of f] w 2(7) nx show ?case by simp
qed

lemma followTransitions_worklist:
  "followTransitions isLexerRule getDisplayName voc a names n k g trs = Inr g1
   \<Longrightarrow> seenStates g = set (worklist g)
   \<Longrightarrow> \<exists>xs. map (nextState a) trs = map Some xs \<and> worklist g1 = fold enqueue xs (worklist g)
            \<and> seenStates g1 = set (worklist g1)"
proof (induction trs arbitrary: g)
  case Nil
  then show ?case by simp
next
  case (Cons tr trs)
  then obtain g2 where g2: "followTransition isLexerRule getDisplayName voc a names n k g tr = Inr g2"
    and rest: "followTransitions isLexerRule getDisplayName voc a names n k g2 trs = Inr g1"
    by (cases "followTransition isLexerRule getDisplayName voc a names n k g tr") auto
  from followTransition_worklist[OF g2 Cons.prems(2)] obtain x where
    x: "nextState a tr = Some x" "worklist g2 = enqueue x (worklist g)"
      "seenStates g2 = set (worklist g2)" by blast
  from Cons.IH[OF rest x(3)] obtain xs where
    xs: "map (nextState a) trs = map Some xs" "worklist g1 = fold enqueue xs (worklist g2)"
      "seenStates g1 = set (worklist g1)" by blast
  have "map (nextState a) (tr # trs) = map Some (x # xs)" using x(1) xs(1) by simp
  moreover have "worklist g1 = fold enqueue (x # xs) (worklist g)" using x(2) xs(2) by simp
  ultimately show ?case using xs(3) by blast
qed

lemma map_filter_Some: "map f xs = map Some ys \<Longrightarrow> List.map_filter f xs = ys"
proof (induction xs arbitrary: ys)
  case Nil
  then show ?case by (simp add: List.map_filter_simps)
next
  case (Cons x xs)
  then obtain y ys' where "ys = y # ys'" "f x = Some y" "map f xs = map Some ys'" by (cases ys) auto
  with Cons.IH[of ys'] show ?case by (simp add: List.map_filter_simps)
qed

lemma expandState_worklist:
  assumes e: "expandState isLexerRule getDisplayName voc a names stopState (g\<lparr>pipeline := rest\<rparr>) n = Inr g1"
    and p: "pipeline g = n # rest"
    and s: "seenStates g = set (worklist g)"
  shows "worklist g1 = fold enqueue (nextStates a stopState n) (worklist g)"
    and "seenStates g1 = set (worklist g1)"
proof -
  let ?g = "g\<lparr>pipeline := rest, expanded := expanded g @ [n]\<rparr>"
  have w0: "worklist ?g = worklist g" using p by (simp add: worklist_def)
  have s0: "seenStates ?g = set (worklist ?g)" using s w0 by simp
  have "worklist g1 = fold enqueue (nextStates a stopState n) (worklist g)
        \<and> seenStates g1 = set (worklist g1)"
  proof (rule expandState_cases[OF e], goal_cases)
    case (1 state k)
    from 1(3) have f: "ensureATNNode a names n n ?g = Inr (k, g1)" by simp
    have "worklist g1 = worklist ?g" using ensureATNNode_frame(2,3)[OF f] by (rule worklist_frame)
    moreover have "seenStates g1 = seenStates ?g" by (rule ensureATNNode_frame(1)[OF f])
    moreover have "nextStates a stopState n = []" using 1(2) by (simp add: nextStates_def)
    ultimately show ?case using w0 s0 by simp
  next
    case (2 state k g2)
    from 2(3) have f: "ensureATNNode a names n n ?g = Inr (k, g2)" by simp
    have w2: "worklist g2 = worklist ?g" using ensureATNNode_frame(2,3)[OF f] by (rule worklist_frame)
    have "seenStates g2 = seenStates ?g" by (rule ensureATNNode_frame(1)[OF f])
    with w2 s0 have s2: "seenStates g2 = set (worklist g2)" by simp
    from followTransitions_worklist[OF 2(4) s2] obtain xs where
      xs: "map (nextState a) (transitions state) = map Some xs"
        "worklist g1 = fold enqueue xs (worklist g2)" "seenStates g1 = set (worklist g1)" by blast
    have "nextStates a stopState n = xs"
      using 2(1,2) map_filter_Some[OF xs(1)] by (simp add: nextStates_def)
    then show ?case using xs(2,3) w2 w0 by simp
  qed
  then show "worklist g1 = fold enqueue (nextStates a stopState n) (worklist g)"
    and "seenStates g1 = set (worklist g1)" by simp_all
qed

lemma inOrder_step:
  assumes i: "inOrder a startState stopState g"
    and p: "pipeline g = n # rest"
    and e: "expandState isLexerRule getDisplayName voc a names stopState (g\<lparr>pipeline := rest\<rparr>) n = Inr g1"
  shows "inOrder a startState stopState g1"
proof -
  from i have s: "seenStates g = set (worklist g)"
    and w: "worklist g = discovered (startState # concat (map (nextStates a stopState) (expanded g)))"
    by (simp_all add: inOrder_def)
  note w1 = expandState_worklist(1)[OF e p s] and s1 = expandState_worklist(2)[OF e p s]
  have ex: "expanded g1 = expanded g @ [n]" using expandState_expanded[OF e] by simp
  have "discovered (startState # concat (map (nextStates a stopState) (expanded g1)))
          = fold enqueue (nextStates a stopState n)
              (discovered (startState # concat (map (nextStates a stopState) (expanded g))))"
    unfolding ex discovered_def by simp
  with w w1 have "worklist g1 = discovered (startState # concat (map (nextStates a stopState) (expanded g1)))"
    by simp
  with s1 show ?thesis by (simp add: inOrder_def)
qed

lemma inOrder_initial:
  "inOrder a startState stopState
     \<lparr>nodes = [], links = [], stateToIndex = Map.empty, currentRuleIndex = - 1,
      seenStates = {startState}, pipeline = [startState], expanded = []\<rparr>"
  by (simp add: inOrder_def worklist_def discovered_def enqueue_def)

lemma extractGraph_inOrder:
  assumes s: "nth_opt (ruleToStartState (atn data)) index = Some startState"
    and e: "extractGraph isLexerRule getDisplayName data index = Inr g"
  shows "expanded g
           = discovered (startState
               # concat (map (nextStates (atn data) (nth_opt (ruleToStopState (atn data)) index))
                           (expanded g)))"
proof -
  let ?stop = "nth_opt (ruleToStopState (atn data)) index"
  let ?g0 = "\<lparr>nodes = [], links = [], stateToIndex = Map.empty, currentRuleIndex = - 1,
             seenStates = {startState}, pipeline = [startState], expanded = []\<rparr>"
  have t: "traverse isLexerRule getDisplayName (vocabulary data) (atn data) (ruleNames data) ?stop ?g0 = Inr g"
    using e s by (simp add: extractGraph_def)
  have step: "\<forall>g n rest g1. inOrder (atn data) startState ?stop g \<and> pipeline g = n # rest
      \<and> expandState isLexerRule getDisplayName (vocabulary data) (atn data) (ruleNames data) ?stop
           (g\<lparr>pipeline := rest\<rparr>) n = Inr g1
      \<longrightarrow> inOrder (atn data) startState ?stop g1"
  proof (intro allI impI, elim conjE)
    fix g0 n rest g1
    assume "inOrder (atn data) startState ?stop g0" "pipeline g0 = n # rest"
      "expandState isLexerRule getDisplayName (vocabulary data) (atn data) (ruleNames data) ?stop
           (g0\<lparr>pipeline := rest\<rparr>) n = Inr g1"
    then show "inOrder (atn data) startState ?stop g1" by (rule inOrder_step)
  qed
  from traverse_invariant[where I = "inOrder (atn data) startState ?stop", OF step t inOrder_initial]
  have i: "inOrder (atn data) startState ?stop g" and p: "pipeline g = []" by simp_all
  from p have w: "worklist g = expanded g" by (simp add: worklist_def)
  from i have "worklist g
                 = discovered (startState # concat (map (nextStates (atn data) ?stop) (expanded g)))"
    unfolding inOrder_def by (rule conjunct2)
  then show ?thesis unfolding w .
qed


subsection \<open>The graphs of the examples\<close>

lemma example_expanded:
  "map_sum (\<lambda>e. e) expanded (extractGraph False example_displayName example_data 1)
     = Inr [2, 6, 7, 10, 8, 11, 9, 12, 13, 3]"
  by code_simp

lemma odd_graph:
  "map_sum (\<lambda>e. e)
       (map_option (\<lambda>graph. (map node_id (graph_nodes graph), map node_type (graph_nodes graph))))
     (getATNGraph example_toUpperCase example_displayName odd_loaded (utf16 ''r''))
     = Inr (Some ([2, 4, 0, 3], [2, 1, 2, 7]))"
  by code_simp

lemma odd_expanded:
  "map_sum (\<lambda>e. e) expanded (extractGraph False example_displayName odd_data 1) = Inr [2, 4, 3]"
  by code_simp

lemma odd_reachable: "reachable odd_atn 2 (Some 3) = {2, 4, 3}"
proof -
  obtain g where g: "extractGraph False example_displayName odd_data 1 = Inr g"
    and e: "expanded g = [2, 4, 3]"
    using odd_expanded by (cases "extractGraph False example_displayName odd_data 1") auto
  have s: "nth_opt (ruleToStartState (atn odd_data)) 1 = Some 2" by code_simp
  have t: "nth_opt (ruleToStopState (atn odd_data)) 1 = Some 3" by code_simp
  have a: "atn odd_data = odd_atn" by (simp add: odd_data_def)
  note r = extractGraph_reachable[OF s g, unfolded t e]
  then show ?thesis by (simp add: a)
qed


section \<open>The claims about parse and the semantic pass\<close>

text \<open>
  Claim C4. Once the context has a token stream, \<open>parse\<close> runs the parser first with the bail
  strategy and SLL prediction from position 0. If and only if that run throws a
  \<open>ParseCancellationException\<close>, the parser runs exactly once more, from position 0 again,
  with the default strategy and LL prediction. Any other exception of the first run and
  every exception of the second run is the exception of \<open>parse\<close>; a run that gives a tree
  makes \<open>parse\<close> return with that tree.
\<close>

theorem parse_two_tier_retry:
  assumes "tokenStream c = Some (src, pos)"
  shows "trace (snd (parse fe c)) = trace c @
           (if fst (grammarSpec fe (Some BailErrorStrategy) SLL src 0) = Inl ParseCancellationException
            then [GrammarSpecRun (Some BailErrorStrategy) SLL 0,
                  GrammarSpecRun (Some DefaultErrorStrategy) LL 0]
            else [GrammarSpecRun (Some BailErrorStrategy) SLL 0])
       \<and> (\<forall>e. fst (grammarSpec fe (Some BailErrorStrategy) SLL src 0) = Inl e
              \<and> e \<noteq> ParseCancellationException \<longrightarrow> fst (parse fe c) = Inl e)
       \<and> (\<forall>e. fst (grammarSpec fe (Some BailErrorStrategy) SLL src 0) = Inl ParseCancellationException
              \<and> fst (grammarSpec fe (Some DefaultErrorStrategy) LL src 0) = Inl e
              \<longrightarrow> fst (parse fe c) = Inl e)
       \<and> (\<forall>t. fst (grammarSpec fe (Some BailErrorStrategy) SLL src 0) = Inr t
              \<longrightarrow> tree (snd (parse fe c)) = Some t \<and> (\<exists>imps. fst (parse fe c) = Inr imps))
       \<and> (\<forall>t. fst (grammarSpec fe (Some BailErrorStrategy) SLL src 0) = Inl ParseCancellationException
              \<and> fst (grammarSpec fe (Some DefaultErrorStrategy) LL src 0) = Inr t
              \<longrightarrow> tree (snd (parse fe c)) = Some t \<and> (\<exists>imps. fst (parse fe c) = Inr imps))"
  by (rule parse_state_cases[OF assms, of fe];
      simp add: parse_fields fast_run_def[symmetric] general_run_def[symmetric])

text \<open>The instance: a text that the fast run gives up on is parsed a second time.\<close>

theorem parse_two_tier_retry_witness:
  "tokenStream (setText ''grammar T'' example_context) = Some (''grammar T'', 0)
   \<and> trace (snd (parse example_frontend (setText ''grammar T'' example_context)))
       = [GrammarSpecRun (Some BailErrorStrategy) SLL 0, GrammarSpecRun (Some DefaultErrorStrategy) LL 0]
   \<and> tree (snd (parse example_frontend (setText ''grammar T'' example_context))) = Some ''grammar T''"
proof -
  have ts: "tokenStream (setText ''grammar T'' example_context) = Some (''grammar T'', 0)"
    by (simp add: setText_def)
  have tr: "trace (setText ''grammar T'' example_context) = []"
    by (simp add: setText_def example_context_fields)
  have runs: "fst (grammarSpec example_frontend (Some BailErrorStrategy) SLL ''grammar T'' 0)
                = Inl ParseCancellationException"
    "fst (grammarSpec example_frontend (Some DefaultErrorStrategy) LL ''grammar T'' 0) = Inr ''grammar T''"
    using example_runs(2,3) by (simp_all add: fast_run_def general_run_def)
  from parse_two_tier_retry[OF ts, of example_frontend] runs tr ts show ?thesis by simp
qed








section \<open>The claims about the reference mesh\<close>

text \<open>
  Claim C1, at the input where the source fails it. Two contexts \<open>A\<close> and \<open>B\<close> without
  references are linked both ways: \<open>A.addAsReferenceTo(B)\<close> and then \<open>B.addAsReferenceTo(A)\<close>
  both return, and leave \<open>B\<close> in the references of \<open>A\<close> and \<open>A\<close> in those of \<open>B\<close>. On that
  mesh \<open>C.addAsReferenceTo(A)\<close> of any third context never leaves its loop: the pipeline
  holds \<open>A\<close> and \<open>B\<close> in turn and is never empty.
\<close>

theorem addAsReferenceTo_loops_on_mutual_references:
  assumes "references (st A) = []" "references (st B) = []" "A \<noteq> B" "C \<noteq> A" "C \<noteq> B"
  shows "\<exists>st1 st2. addAsReferenceTo st A B = Some st1
           \<and> addAsReferenceTo st1 B A = Some st2
           \<and> references (st2 A) = [B] \<and> references (st2 B) = [A]
           \<and> addAsReferenceTo st2 C A = None"
proof (rule mutual_references[OF assms(1,2,3)], goal_cases)
  case (1 st1 st2)
  have "mutualInclusion st2 C [A] = None"
    by (rule mutualInclusion_cycle[OF 1(3) 1(4) assms(4) assms(5)])
  then have "addAsReferenceTo st2 C A = None" by (simp add: addAsReferenceTo_def)
  with 1 show ?case by blast
qed

text \<open>The instance: three copies of the parsed example context, at the addresses 0, 1, 2.\<close>

theorem addAsReferenceTo_loops_on_mutual_references_witness:
  "references ((\<lambda>i. example_parsed) (0::nat)) = [] \<and> references ((\<lambda>i. example_parsed) (1::nat)) = []
   \<and> (0::nat) \<noteq> 1 \<and> (2::nat) \<noteq> 0 \<and> (2::nat) \<noteq> 1
   \<and> (\<exists>st1 st2. addAsReferenceTo (\<lambda>i. example_parsed) 0 1 = Some st1
           \<and> addAsReferenceTo st1 1 0 = Some st2
           \<and> references (st2 0) = [1] \<and> references (st2 1) = [0]
           \<and> addAsReferenceTo st2 2 0 = None)"
  using addAsReferenceTo_loops_on_mutual_references[of "\<lambda>i. example_parsed" 0 1 2]
  by (simp add: example_parsed_fields(6))

text \<open>
  Claim C2, at the input where the source fails it. On the mesh that the two calls
  \<open>A.addAsReferenceTo(B)\<close> and \<open>B.addAsReferenceTo(A)\<close> build from two parsed contexts,
  \<open>A.getReferenceCount(symbol)\<close> returns no count: whatever depth the call stack is
  given, the recursion goes deeper.
\<close>

theorem getReferenceCount_recurses_forever_on_mutual_references:
  assumes "references (st A) = []" "references (st B) = []" "A \<noteq> B"
    and "analysable (st A)" "analysable (st B)"
  shows "\<exists>st1 st2. addAsReferenceTo st A B = Some st1
           \<and> addAsReferenceTo st1 B A = Some st2
           \<and> (\<forall>depth. snd (getReferenceCount fe depth st2 A symbol) = None)"
proof (rule mutual_references[OF assms(1,2,3)], goal_cases)
  case (1 st1 st2)
  have a: "analysable (st2 A)" "analysable (st2 B)"
    using assms(4,5) 1(5,6,7,8) by (simp_all add: analysable_def)
  have "\<forall>depth. snd (getReferenceCount fe depth st2 A symbol) = None"
    using getReferenceCount_cycle[OF 1(3) 1(4) a] by blast
  with 1 show ?case by blast
qed

text \<open>The instance: two copies of the parsed example context, at the addresses 0 and 1.\<close>

theorem getReferenceCount_recurses_forever_on_mutual_references_witness:
  "references ((\<lambda>i. example_parsed) (0::nat)) = [] \<and> references ((\<lambda>i. example_parsed) (1::nat)) = []
   \<and> (0::nat) \<noteq> 1 \<and> analysable ((\<lambda>i. example_parsed) (0::nat))
   \<and> (\<exists>st1 st2. addAsReferenceTo (\<lambda>i. example_parsed) 0 1 = Some st1
           \<and> addAsReferenceTo st1 1 0 = Some st2
           \<and> (\<forall>depth. snd (getReferenceCount example_frontend depth st2 0 ''a'') = None))"
  using getReferenceCount_recurses_forever_on_mutual_references
          [of "\<lambda>i. example_parsed" 0 1 example_frontend "''a''"]
  by (simp add: example_parsed_fields(2,6) analysable_def)


section \<open>The claim about the global symbol table\<close>

text \<open>
  Claim C8. Starting from the global table as the static initialiser leaves it, the
  construction of any number of contexts, one at least, never throws and leaves in the
  global table exactly the four symbols \<open>DEFAULT_TOKEN_CHANNEL\<close>, \<open>HIDDEN\<close>, \<open>EOF\<close> and
  \<open>DEFAULT_MODE\<close>, each once, and \<open>resolve\<close> finds each of the four names.
\<close>

theorem global_symbols_defined_once:
  assumes "files \<noteq> []"
  shows "\<exists>cs g. (construct_all h files globalSymbols_initial
           :: exn + ('tree, 'sym, 'diag, 'voc) SourceContext list \<times> Symbol ContextSymbolTable) = Inr (cs, g)
          \<and> length cs = length files
          \<and> symbols g = builtin_symbols
          \<and> (\<forall>n \<in> {''DEFAULT_TOKEN_CHANNEL'', ''HIDDEN'', ''EOF'', ''DEFAULT_MODE''}.
                (\<exists>s. resolve g n = Some s \<and> symbol_name s = n)
                \<and> length (filter (\<lambda>s. symbol_name s = n) (symbols g)) = 1)"
proof -
  from assms obtain f fs where files: "files = f # fs" by (cases files) auto
  obtain cs where cs: "(construct_all h fs (globalSymbols_initial\<lparr>symbols := builtin_symbols\<rparr>)
           :: exn + ('tree, 'sym, 'diag, 'voc) SourceContext list \<times> Symbol ContextSymbolTable)
         = Inr (cs, globalSymbols_initial\<lparr>symbols := builtin_symbols\<rparr>)" "length cs = length fs"
    using construct_all_initialised by blast
  have "\<exists>c. (construct_all h files globalSymbols_initial
           :: exn + ('tree, 'sym, 'diag, 'voc) SourceContext list \<times> Symbol ContextSymbolTable)
         = Inr (c # cs, globalSymbols_initial\<lparr>symbols := builtin_symbols\<rparr>)"
    by (simp add: files new_SourceContext_def initGlobalSymbols_initial cs)
  then obtain c where c: "(construct_all h files globalSymbols_initial
           :: exn + ('tree, 'sym, 'diag, 'voc) SourceContext list \<times> Symbol ContextSymbolTable)
         = Inr (c # cs, globalSymbols_initial\<lparr>symbols := builtin_symbols\<rparr>)" by blast
  show ?thesis
  proof (intro exI conjI)
    show "(construct_all h files globalSymbols_initial
           :: exn + ('tree, 'sym, 'diag, 'voc) SourceContext list \<times> Symbol ContextSymbolTable)
         = Inr (c # cs, globalSymbols_initial\<lparr>symbols := builtin_symbols\<rparr>)" by (rule c)
    show "length (c # cs) = length files" by (simp add: cs files)
    show "symbols (globalSymbols_initial\<lparr>symbols := builtin_symbols\<rparr>) = builtin_symbols" by simp
    show "\<forall>n \<in> {''DEFAULT_TOKEN_CHANNEL'', ''HIDDEN'', ''EOF'', ''DEFAULT_MODE''}.
            (\<exists>s. resolve (globalSymbols_initial\<lparr>symbols := builtin_symbols\<rparr>) n = Some s \<and> symbol_name s = n)
            \<and> length (filter (\<lambda>s. symbol_name s = n)
                 (symbols (globalSymbols_initial\<lparr>symbols := builtin_symbols\<rparr>))) = 1"
      by (simp add: resolve_def builtin_symbols_def)
  qed
qed

text \<open>The instance: three contexts constructed one after the other.\<close>

theorem global_symbols_defined_once_witness:
  "[''T.g4'', ''U.g4'', ''V.g4''] \<noteq> []
   \<and> (\<exists>cs g. (construct_all example_host [''T.g4'', ''U.g4'', ''V.g4''] globalSymbols_initial
                 :: exn + (string, string, string, unit) SourceContext list \<times> Symbol ContextSymbolTable)
               = Inr (cs, g)
          \<and> length cs = 3
          \<and> map symbol_name (symbols g) = [''DEFAULT_TOKEN_CHANNEL'', ''HIDDEN'', ''EOF'', ''DEFAULT_MODE'']
          \<and> (\<exists>s. resolve g ''EOF'' = Some s \<and> symbol_name s = ''EOF''))"
proof -
  have ne: "[''T.g4'', ''U.g4'', ''V.g4''] \<noteq> []" by simp
  obtain cs g where r: "(construct_all example_host [''T.g4'', ''U.g4'', ''V.g4''] globalSymbols_initial
                 :: exn + (string, string, string, unit) SourceContext list \<times> Symbol ContextSymbolTable)
               = Inr (cs, g)"
    "length cs = length [''T.g4'', ''U.g4'', ''V.g4'']" "symbols g = builtin_symbols"
    "\<forall>n \<in> {''DEFAULT_TOKEN_CHANNEL'', ''HIDDEN'', ''EOF'', ''DEFAULT_MODE''}.
        (\<exists>s. resolve g n = Some s \<and> symbol_name s = n)
        \<and> length (filter (\<lambda>s. symbol_name s = n) (symbols g)) = 1"
    using global_symbols_defined_once[OF ne, of example_host] by blast
  from r(4) have "\<exists>s. resolve g ''EOF'' = Some s \<and> symbol_name s = ''EOF''" by simp
  with r(1,2,3) show ?thesis by (simp add: builtin_symbols_def)
qed


section \<open>The claims about generateSentence and the rule name of getATNGraph\<close>

text \<open>
  Claim C7, as the source has it. The claim fails where it counts the calls of the
  callback when the generator throws: three sentences are asked for, the first
  \<open>generate\<close> throws, and the callback is called once, with the thrown value and the
  index 0, not three times and not once for each index.
\<close>

theorem generateSentence_failure_counterexample:
  "sentence_count \<lparr>count = Some (Finite 3), actionFile = None\<rparr> = Finite 3
   \<and> generateSentence example_toUpperCase failing_generator example_combined [] (utf16 ''r'')
        \<lparr>count = Some (Finite 3), actionFile = None\<rparr> example_callback
       = Some (None, [(Thrown (OtherException ''no path''), 0)])"
proof -
  have cb: "\<And>a i. example_callback a i = None" by (simp add: example_callback_def)
  have gen: "newSentenceGenerator failing_generator
               (actionFile \<lparr>count = Some (Finite 3), actionFile = None\<rparr>) = Inr 0"
    by (simp add: failing_generator_def)
  have n: "sentence_count \<lparr>count = Some (Finite 3), actionFile = None\<rparr> = NaN \<and> (3::nat) = 0
           \<or> (\<exists>q. sentence_count \<lparr>count = Some (Finite 3), actionFile = None\<rparr> = Finite q
                  \<and> q \<le> 2 ^ 53 \<and> (3::nat) = nat \<lceil>q\<rceil>)"
    by (simp add: example_count)
  have out: "outcomes failing_generator (Some 2) 0 (Suc 0)
               = map Inr [] @ [Inl (OtherException ''no path'')]"
    by (simp add: failing_generator_def)
  have failure: "generate_all failing_generator example_callback
          \<lparr>count = Some (Finite 3), actionFile = None\<rparr> (Some 2)
          = Some (None, zip (map Sentence []) [0..<0] @ [(Thrown (OtherException ''no path''), 0)])"
    by (rule generate_all_failure[OF cb gen n _ out]) simp
  have run: "generateSentence example_toUpperCase failing_generator example_combined [] (utf16 ''r'')
                   \<lparr>count = Some (Finite 3), actionFile = None\<rparr> example_callback
                 = generate_all failing_generator example_callback
                     \<lparr>count = Some (Finite 3), actionFile = None\<rparr>
                     (nth_opt (ruleToStartState (atn example_data)) 1)"
    by (rule generateSentence_parser_rule[OF example_combined_fields(1) _ example_combined_fields(2)
          example_combined_fields(6) example_combined_fields(3) example_combined_fields(4)])
       (simp add: utf16_def)
  show ?thesis
  proof (intro conjI)
    show "sentence_count \<lparr>count = Some (Finite 3), actionFile = None\<rparr> = Finite 3"
      by (rule example_count)
    show "generateSentence example_toUpperCase failing_generator example_combined [] (utf16 ''r'')
            \<lparr>count = Some (Finite 3), actionFile = None\<rparr> example_callback
          = Some (None, [(Thrown (OtherException ''no path''), 0)])"
      unfolding run example_start using failure by simp
  qed
qed

text \<open>
  Claim C7, amended. With a callback that does not throw, \<open>generateSentence\<close> never throws.
  It hands one placeholder to the callback, with the index 0, when no interpreter data is
  loaded, when the rule name is empty, when there is no lexer data, when a parser rule
  is asked for and there is no parser data, and when the rule is not in the rule map of
  its kind. Otherwise the generator is made and asked for sentences from the start state
  of the rule. When its constructor throws, the callback receives the thrown value with
  the index 0 and nothing else. Let \<open>n\<close> be the number of turns of the loop: the count
  \<open>max(count ?? 1, 1)\<close> rounded up to a whole number when it is finite and at most
  \<open>2\<^sup>5\<^sup>3\<close>, and 0 when it is not a number. When the first \<open>n\<close> calls of \<open>generate\<close> return
  sentences, the callback receives exactly these sentences, in order, with the indices
  \<open>0, \<dots>, n - 1\<close>. When the call number \<open>k < n\<close> is the first that throws, the callback
  receives the \<open>k\<close> sentences returned before it with their indices and then once the
  thrown value with the index 0, and nothing more is generated. When the count is
  infinite or above \<open>2\<^sup>5\<^sup>3\<close> and \<open>generate\<close> never throws, \<open>generateSentence\<close> does not return.
\<close>

theorem generateSentence_reports:
  assumes cb: "\<And>a i. cb a i = None"
  shows "(\<forall>r. generateSentence toUpperCase api c deps rule options cb = Some r \<longrightarrow> fst r = None)
   \<and> (\<not> isInterpreterDataLoaded c \<longrightarrow>
        generateSentence toUpperCase api c deps rule options cb
          = Some (None, [(Sentence (utf16 ''[No grammar data available]''), 0)]))
   \<and> (isInterpreterDataLoaded c \<and> rule = [] \<longrightarrow>
        generateSentence toUpperCase api c deps rule options cb
          = Some (None, [(Sentence (utf16 ''[No rule specified]''), 0)]))
   \<and> (isInterpreterDataLoaded c \<and> rule \<noteq> [] \<and> lexerDataFor c deps = None \<longrightarrow>
        generateSentence toUpperCase api c deps rule options cb
          = Some (None, [(Sentence (utf16 ''[No lexer data available]''), 0)]))
   \<and> (isInterpreterDataLoaded c \<and> rule \<noteq> [] \<and> lexerDataFor c deps \<noteq> None
        \<and> isLexerRule_of toUpperCase rule = Inr False \<and> parserDataFor c = None \<longrightarrow>
        generateSentence toUpperCase api c deps rule options cb
          = Some (None, [(Sentence (utf16 ''[No parser data available]''), 0)]))
   \<and> (isInterpreterDataLoaded c \<and> rule \<noteq> [] \<and> lexerDataFor c deps \<noteq> None
        \<and> isLexerRule_of toUpperCase rule = Inr True \<and> grammarLexerRuleMap c rule = None \<longrightarrow>
        generateSentence toUpperCase api c deps rule options cb
          = Some (None, [(Sentence (utf16 ''[Virtual or undefined token]''), 0)]))
   \<and> (isInterpreterDataLoaded c \<and> rule \<noteq> [] \<and> lexerDataFor c deps \<noteq> None
        \<and> isLexerRule_of toUpperCase rule = Inr False \<and> parserDataFor c \<noteq> None
        \<and> grammarParserRuleMap c rule = None \<longrightarrow>
        generateSentence toUpperCase api c deps rule options cb
          = Some (None, [(Sentence (utf16 ''[Undefined rule]''), 0)]))
   \<and> (\<forall>start.
        isInterpreterDataLoaded c \<and> rule \<noteq> []
        \<and> ((\<exists>lexerData index. lexerDataFor c deps = Some lexerData
                \<and> isLexerRule_of toUpperCase rule = Inr True \<and> grammarLexerRuleMap c rule = Some index
                \<and> start = nth_opt (ruleToStartState (atn lexerData)) index)
            \<or> (\<exists>parserData index. lexerDataFor c deps \<noteq> None
                \<and> isLexerRule_of toUpperCase rule = Inr False \<and> parserDataFor c = Some parserData
                \<and> grammarParserRuleMap c rule = Some index
                \<and> start = nth_opt (ruleToStartState (atn parserData)) index))
        \<longrightarrow>
          (\<forall>e. newSentenceGenerator api (actionFile options) = Inl e \<longrightarrow>
             generateSentence toUpperCase api c deps rule options cb = Some (None, [(Thrown e, 0)]))
        \<and> (\<forall>gen n. newSentenceGenerator api (actionFile options) = Inr gen
               \<and> (sentence_count options = NaN \<and> n = 0
                  \<or> (\<exists>q. sentence_count options = Finite q \<and> q \<le> 2 ^ 53 \<and> n = nat \<lceil>q\<rceil>))
              \<longrightarrow>
                (\<forall>ss. outcomes api start gen n = map Inr ss \<longrightarrow>
                   generateSentence toUpperCase api c deps rule options cb
                     = Some (None, zip (map Sentence ss) [0..<n]))
              \<and> (\<forall>k ss e. k < n \<and> outcomes api start gen (Suc k) = map Inr ss @ [Inl e] \<longrightarrow>
                   generateSentence toUpperCase api c deps rule options cb
                     = Some (None, zip (map Sentence ss) [0..<k] @ [(Thrown e, 0)])))
        \<and> (\<forall>gen. newSentenceGenerator api (actionFile options) = Inr gen
               \<and> (sentence_count options = PositiveInfinity
                  \<or> (\<exists>q. sentence_count options = Finite q \<and> 2 ^ 53 < q))
               \<and> (\<forall>g. \<exists>s. fst (generate api g start) = Inr s)
              \<longrightarrow> generateSentence toUpperCase api c deps rule options cb = None))"
proof (intro conjI impI allI)
  fix r assume "generateSentence toUpperCase api c deps rule options cb = Some r"
  then show "fst r = None" by (rule generateSentence_returns[OF cb])
next
  assume "\<not> isInterpreterDataLoaded c"
  then show "generateSentence toUpperCase api c deps rule options cb
               = Some (None, [(Sentence (utf16 ''[No grammar data available]''), 0)])"
    by (simp add: generateSentence_no_data placeholder_def cb)
next
  assume "isInterpreterDataLoaded c \<and> rule = []"
  then show "generateSentence toUpperCase api c deps rule options cb
               = Some (None, [(Sentence (utf16 ''[No rule specified]''), 0)])"
    by (simp add: generateSentence_no_rule placeholder_def cb)
next
  assume "isInterpreterDataLoaded c \<and> rule \<noteq> [] \<and> lexerDataFor c deps = None"
  then show "generateSentence toUpperCase api c deps rule options cb
               = Some (None, [(Sentence (utf16 ''[No lexer data available]''), 0)])"
    by (simp add: generateSentence_no_lexer placeholder_def cb)
next
  assume "isInterpreterDataLoaded c \<and> rule \<noteq> [] \<and> lexerDataFor c deps \<noteq> None
        \<and> isLexerRule_of toUpperCase rule = Inr False \<and> parserDataFor c = None"
  then show "generateSentence toUpperCase api c deps rule options cb
               = Some (None, [(Sentence (utf16 ''[No parser data available]''), 0)])"
    by (auto simp add: generateSentence_no_parser placeholder_def cb)
next
  assume "isInterpreterDataLoaded c \<and> rule \<noteq> [] \<and> lexerDataFor c deps \<noteq> None
        \<and> isLexerRule_of toUpperCase rule = Inr True \<and> grammarLexerRuleMap c rule = None"
  then show "generateSentence toUpperCase api c deps rule options cb
               = Some (None, [(Sentence (utf16 ''[Virtual or undefined token]''), 0)])"
    by (auto simp add: generateSentence_no_token placeholder_def cb)
next
  assume "isInterpreterDataLoaded c \<and> rule \<noteq> [] \<and> lexerDataFor c deps \<noteq> None
        \<and> isLexerRule_of toUpperCase rule = Inr False \<and> parserDataFor c \<noteq> None
        \<and> grammarParserRuleMap c rule = None"
  then show "generateSentence toUpperCase api c deps rule options cb
               = Some (None, [(Sentence (utf16 ''[Undefined rule]''), 0)])"
    by (auto simp add: generateSentence_no_parser_rule placeholder_def cb)
next
  fix start e
  assume a: "isInterpreterDataLoaded c \<and> rule \<noteq> []
        \<and> ((\<exists>lexerData index. lexerDataFor c deps = Some lexerData
                \<and> isLexerRule_of toUpperCase rule = Inr True \<and> grammarLexerRuleMap c rule = Some index
                \<and> start = nth_opt (ruleToStartState (atn lexerData)) index)
            \<or> (\<exists>parserData index. lexerDataFor c deps \<noteq> None
                \<and> isLexerRule_of toUpperCase rule = Inr False \<and> parserDataFor c = Some parserData
                \<and> grammarParserRuleMap c rule = Some index
                \<and> start = nth_opt (ruleToStartState (atn parserData)) index))"
    and e: "newSentenceGenerator api (actionFile options) = Inl e"
  from a have run: "generateSentence toUpperCase api c deps rule options cb = generate_all api cb options start"
    by (auto simp add: generateSentence_lexer_rule generateSentence_parser_rule)
  show "generateSentence toUpperCase api c deps rule options cb = Some (None, [(Thrown e, 0)])"
    unfolding run by (rule generate_all_no_generator[OF cb e])
next
  fix start gen n ss
  assume a: "isInterpreterDataLoaded c \<and> rule \<noteq> []
        \<and> ((\<exists>lexerData index. lexerDataFor c deps = Some lexerData
                \<and> isLexerRule_of toUpperCase rule = Inr True \<and> grammarLexerRuleMap c rule = Some index
                \<and> start = nth_opt (ruleToStartState (atn lexerData)) index)
            \<or> (\<exists>parserData index. lexerDataFor c deps \<noteq> None
                \<and> isLexerRule_of toUpperCase rule = Inr False \<and> parserDataFor c = Some parserData
                \<and> grammarParserRuleMap c rule = Some index
                \<and> start = nth_opt (ruleToStartState (atn parserData)) index))"
    and g: "newSentenceGenerator api (actionFile options) = Inr gen
               \<and> (sentence_count options = NaN \<and> n = 0
                  \<or> (\<exists>q. sentence_count options = Finite q \<and> q \<le> 2 ^ 53 \<and> n = nat \<lceil>q\<rceil>))"
    and out: "outcomes api start gen n = map Inr ss"
  from a have run: "generateSentence toUpperCase api c deps rule options cb = generate_all api cb options start"
    by (auto simp add: generateSentence_lexer_rule generateSentence_parser_rule)
  from g have gen: "newSentenceGenerator api (actionFile options) = Inr gen"
    and n: "sentence_count options = NaN \<and> n = 0
            \<or> (\<exists>q. sentence_count options = Finite q \<and> q \<le> 2 ^ 53 \<and> n = nat \<lceil>q\<rceil>)"
    by simp_all
  show "generateSentence toUpperCase api c deps rule options cb
          = Some (None, zip (map Sentence ss) [0..<n])"
    unfolding run by (rule generate_all_success[OF cb gen n out])
next
  fix start gen n k ss e
  assume a: "isInterpreterDataLoaded c \<and> rule \<noteq> []
        \<and> ((\<exists>lexerData index. lexerDataFor c deps = Some lexerData
                \<and> isLexerRule_of toUpperCase rule = Inr True \<and> grammarLexerRuleMap c rule = Some index
                \<and> start = nth_opt (ruleToStartState (atn lexerData)) index)
            \<or> (\<exists>parserData index. lexerDataFor c deps \<noteq> None
                \<and> isLexerRule_of toUpperCase rule = Inr False \<and> parserDataFor c = Some parserData
                \<and> grammarParserRuleMap c rule = Some index
                \<and> start = nth_opt (ruleToStartState (atn parserData)) index))"
    and g: "newSentenceGenerator api (actionFile options) = Inr gen
               \<and> (sentence_count options = NaN \<and> n = 0
                  \<or> (\<exists>q. sentence_count options = Finite q \<and> q \<le> 2 ^ 53 \<and> n = nat \<lceil>q\<rceil>))"
    and out: "k < n \<and> outcomes api start gen (Suc k) = map Inr ss @ [Inl e]"
  from a have run: "generateSentence toUpperCase api c deps rule options cb = generate_all api cb options start"
    by (auto simp add: generateSentence_lexer_rule generateSentence_parser_rule)
  from g have gen: "newSentenceGenerator api (actionFile options) = Inr gen"
    and n: "sentence_count options = NaN \<and> n = 0
            \<or> (\<exists>q. sentence_count options = Finite q \<and> q \<le> 2 ^ 53 \<and> n = nat \<lceil>q\<rceil>)"
    by simp_all
  from out have k: "k < n" and o: "outcomes api start gen (Suc k) = map Inr ss @ [Inl e]"
    by simp_all
  show "generateSentence toUpperCase api c deps rule options cb
          = Some (None, zip (map Sentence ss) [0..<k] @ [(Thrown e, 0)])"
    unfolding run by (rule generate_all_failure[OF cb gen n k o])
next
  fix start gen
  assume a: "isInterpreterDataLoaded c \<and> rule \<noteq> []
        \<and> ((\<exists>lexerData index. lexerDataFor c deps = Some lexerData
                \<and> isLexerRule_of toUpperCase rule = Inr True \<and> grammarLexerRuleMap c rule = Some index
                \<and> start = nth_opt (ruleToStartState (atn lexerData)) index)
            \<or> (\<exists>parserData index. lexerDataFor c deps \<noteq> None
                \<and> isLexerRule_of toUpperCase rule = Inr False \<and> parserDataFor c = Some parserData
                \<and> grammarParserRuleMap c rule = Some index
                \<and> start = nth_opt (ruleToStartState (atn parserData)) index))"
    and g: "newSentenceGenerator api (actionFile options) = Inr gen
               \<and> (sentence_count options = PositiveInfinity
                  \<or> (\<exists>q. sentence_count options = Finite q \<and> 2 ^ 53 < q))
               \<and> (\<forall>g. \<exists>s. fst (generate api g start) = Inr s)"
  from a have run: "generateSentence toUpperCase api c deps rule options cb = generate_all api cb options start"
    by (auto simp add: generateSentence_lexer_rule generateSentence_parser_rule)
  from g have gen: "newSentenceGenerator api (actionFile options) = Inr gen"
    and n: "sentence_count options = PositiveInfinity
            \<or> (\<exists>q. sentence_count options = Finite q \<and> 2 ^ 53 < q)"
    and ok: "\<And>g. \<exists>s. fst (generate api g start) = Inr s"
    by simp_all
  show "generateSentence toUpperCase api c deps rule options cb = None"
    unfolding run by (rule generate_all_endless[OF cb gen n ok])
qed

text \<open>The instance: three sentences of the rule \<open>r\<close> of the combined example grammar, whose
  start state is the state 2.\<close>

theorem generateSentence_reports_witness:
  "(\<forall>a i. example_callback a i = None)
   \<and> isInterpreterDataLoaded example_combined \<and> utf16 ''r'' \<noteq> []
   \<and> lexerDataFor example_combined [] \<noteq> None
   \<and> isLexerRule_of example_toUpperCase (utf16 ''r'') = Inr False
   \<and> parserDataFor example_combined = Some example_data
   \<and> grammarParserRuleMap example_combined (utf16 ''r'') = Some 1
   \<and> nth_opt (ruleToStartState (atn example_data)) 1 = Some 2
   \<and> newSentenceGenerator example_generator None = Inr 0
   \<and> sentence_count \<lparr>count = Some (Finite 3), actionFile = None\<rparr> = Finite 3
   \<and> outcomes example_generator (Some 2) 0 3 = map Inr [utf16 ''x y'', utf16 ''x y'', utf16 ''x y'']
   \<and> generateSentence example_toUpperCase example_generator example_combined [] (utf16 ''r'')
         \<lparr>count = Some (Finite 3), actionFile = None\<rparr> example_callback
       = Some (None, [(Sentence (utf16 ''x y''), 0), (Sentence (utf16 ''x y''), 1),
                      (Sentence (utf16 ''x y''), 2)])"
proof -
  let ?options = "\<lparr>count = Some (Finite 3), actionFile = None\<rparr>"
  have cb: "\<And>a i. example_callback a i = None" by (simp add: example_callback_def)
  have ne: "utf16 ''r'' \<noteq> []" by (simp add: utf16_def)
  have gen: "newSentenceGenerator example_generator None = Inr 0" by (simp add: example_generator_def)
  have out: "outcomes example_generator (Some 2) 0 3
               = map Inr [utf16 ''x y'', utf16 ''x y'', utf16 ''x y'']"
    unfolding example_outcomes by (simp add: numeral_3_eq_3)
  have rule: "isInterpreterDataLoaded example_combined \<and> utf16 ''r'' \<noteq> []
        \<and> ((\<exists>lexerData index. lexerDataFor example_combined [] = Some lexerData
                \<and> isLexerRule_of example_toUpperCase (utf16 ''r'') = Inr True
                \<and> grammarLexerRuleMap example_combined (utf16 ''r'') = Some index
                \<and> Some 2 = nth_opt (ruleToStartState (atn lexerData)) index)
            \<or> (\<exists>parserData index. lexerDataFor example_combined [] \<noteq> None
                \<and> isLexerRule_of example_toUpperCase (utf16 ''r'') = Inr False
                \<and> parserDataFor example_combined = Some parserData
                \<and> grammarParserRuleMap example_combined (utf16 ''r'') = Some index
                \<and> Some 2 = nth_opt (ruleToStartState (atn parserData)) index))"
    using ne example_start by (simp add: example_combined_fields)
  have n: "newSentenceGenerator example_generator (actionFile ?options) = Inr 0
               \<and> (sentence_count ?options = NaN \<and> (3::nat) = 0
                  \<or> (\<exists>q. sentence_count ?options = Finite q \<and> q \<le> 2 ^ 53 \<and> (3::nat) = nat \<lceil>q\<rceil>))"
    by (simp add: example_count gen)
  note all = generateSentence_reports[where cb = example_callback and toUpperCase = example_toUpperCase
      and api = example_generator and c = example_combined and deps = "[]" and rule = "utf16 ''r''"
      and options = ?options, OF cb]
  note run = all[THEN conjunct2, THEN conjunct2, THEN conjunct2, THEN conjunct2, THEN conjunct2,
      THEN conjunct2, THEN conjunct2, THEN spec, THEN mp, OF rule]
  note sentences = run[THEN conjunct2, THEN conjunct1, THEN spec, THEN spec, THEN mp, OF n,
      THEN conjunct1, THEN spec, THEN mp, OF out]
  from sentences have "generateSentence example_toUpperCase example_generator example_combined []
                         (utf16 ''r'') ?options example_callback
       = Some (None, [(Sentence (utf16 ''x y''), 0), (Sentence (utf16 ''x y''), 1),
                      (Sentence (utf16 ''x y''), 2)])"
    by (simp add: upt_rec)
  with cb ne gen out example_start show ?thesis by (simp add: example_combined_fields example_count)
qed

text \<open>
  Claim C10. \<open>getATNGraph\<close> throws a type error on the empty rule name. On every other
  rule name the test of the first code unit against its upper case has a value, whatever
  the upper case of the runtime is, and the method returns \<open>undefined\<close> when the
  interpreter data of the rule's kind is missing or the rule is not in the rule map of
  that kind.
\<close>

theorem getATNGraph_rule_name:
  "getATNGraph toUpperCase getDisplayName c [] = Inl TypeError
   \<and> (rule \<noteq> [] \<longrightarrow>
        isLexerRule_of toUpperCase rule = Inr ([hd rule] = toUpperCase [hd rule])
        \<and> ([hd rule] = toUpperCase [hd rule]
             \<and> (grammarLexerData c = None \<or> grammarLexerRuleMap c rule = None)
            \<longrightarrow> getATNGraph toUpperCase getDisplayName c rule = Inr None)
        \<and> ([hd rule] \<noteq> toUpperCase [hd rule]
             \<and> (grammarParserData c = None \<or> grammarParserRuleMap c rule = None)
            \<longrightarrow> getATNGraph toUpperCase getDisplayName c rule = Inr None))"
proof (intro conjI impI)
  show "getATNGraph toUpperCase getDisplayName c [] = Inl TypeError"
    by (simp add: getATNGraph_def isLexerRule_of_def)
next
  assume "rule \<noteq> []"
  then show "isLexerRule_of toUpperCase rule = Inr ([hd rule] = toUpperCase [hd rule])"
    by (rule isLexerRule_of_nonempty)
next
  assume "rule \<noteq> []"
    and "[hd rule] = toUpperCase [hd rule] \<and> (grammarLexerData c = None \<or> grammarLexerRuleMap c rule = None)"
  then show "getATNGraph toUpperCase getDisplayName c rule = Inr None"
    by (auto simp add: getATNGraph_def isLexerRule_of_nonempty split: option.split)
next
  assume "rule \<noteq> []"
    and "[hd rule] \<noteq> toUpperCase [hd rule] \<and> (grammarParserData c = None \<or> grammarParserRuleMap c rule = None)"
  then show "getATNGraph toUpperCase getDisplayName c rule = Inr None"
    by (auto simp add: getATNGraph_def isLexerRule_of_nonempty split: option.split)
qed

text \<open>The instances: the rule \<open>q\<close>, which the combined example grammar does not have, and a
  rule name that begins with the small e with acute accent, U+00E9, whose upper case is
  U+00C9.\<close>

theorem getATNGraph_rule_name_witness:
  "utf16 ''q'' \<noteq> [] \<and> [hd (utf16 ''q'')] \<noteq> example_toUpperCase [hd (utf16 ''q'')]
   \<and> grammarParserRuleMap example_combined (utf16 ''q'') = None
   \<and> getATNGraph example_toUpperCase example_displayName example_combined [] = Inl TypeError
   \<and> getATNGraph example_toUpperCase example_displayName example_combined (utf16 ''q'') = Inr None
   \<and> [233, 114] \<noteq> [] \<and> [hd [233, 114]] \<noteq> example_toUpperCase [hd [233, 114]]
   \<and> grammarParserRuleMap example_combined [233, 114] = None
   \<and> isLexerRule_of example_toUpperCase [233, 114] = Inr False
   \<and> getATNGraph example_toUpperCase example_displayName example_combined [233, 114] = Inr None"
proof -
  have q: "utf16 ''q'' \<noteq> []" "[hd (utf16 ''q'')] \<noteq> example_toUpperCase [hd (utf16 ''q'')]"
    by code_simp+
  have e: "[hd [233, 114]] \<noteq> example_toUpperCase [hd [233, 114]]"
    "grammarParserRuleMap example_combined [233, 114] = None"
    by code_simp+
  from getATNGraph_rule_name[of example_toUpperCase example_displayName example_combined "utf16 ''q''"]
    getATNGraph_rule_name[of example_toUpperCase example_displayName example_combined "[233, 114]"]
    q e
  show ?thesis by (simp add: example_combined_fields(5))
qed


section \<open>The claims about the automaton graph\<close>

text \<open>
  Claim C6, at an input where the source fails it. In the example grammar the states 7
  and 10 of rule \<open>r\<close> both call rule \<open>a\<close>, whose start state has the number 0, so both
  rule nodes are registered under the same identifier (7 times 0 and 10 times 0). The
  graph of \<open>r\<close> has the node of state 7 at index 2 with its rule node at index 3, and the
  node of state 10 at index 4 with its rule node at index 5. The link of the call from
  state 7 goes from index 2 to index 5, the rule node of the other call, and the link
  back to the follow state 8 (index 6) starts at index 5 as well; the rule node at
  index 3 has no link at all.
\<close>

theorem getATNGraph_call_sites_share_rule_node:
  "getATNGraph example_toUpperCase example_displayName example_loaded (utf16 ''r'') =
     Inr (Some
       \<lparr>graph_links =
          [\<lparr>source = 0, link_target = 1, link_type = EPSILON, labels = [epsilon_label]\<rparr>,
           \<lparr>source = 1, link_target = 2, link_type = EPSILON, labels = [epsilon_label]\<rparr>,
           \<lparr>source = 1, link_target = 4, link_type = EPSILON, labels = [epsilon_label]\<rparr>,
           \<lparr>source = 2, link_target = 5, link_type = RULE, labels = [epsilon_label]\<rparr>,
           \<lparr>source = 5, link_target = 6, link_type = RULE, labels = [epsilon_label]\<rparr>,
           \<lparr>source = 4, link_target = 5, link_type = RULE, labels = [epsilon_label]\<rparr>,
           \<lparr>source = 5, link_target = 7, link_type = RULE, labels = [epsilon_label]\<rparr>,
           \<lparr>source = 6, link_target = 8, link_type = ATOM, labels = [utf16 ''y'']\<rparr>,
           \<lparr>source = 7, link_target = 9, link_type = ATOM, labels = [utf16 ''z'']\<rparr>,
           \<lparr>source = 8, link_target = 10, link_type = EPSILON, labels = [epsilon_label]\<rparr>,
           \<lparr>source = 9, link_target = 10, link_type = EPSILON, labels = [epsilon_label]\<rparr>,
           \<lparr>source = 10, link_target = 11, link_type = EPSILON, labels = [epsilon_label]\<rparr>],
        graph_nodes =
          [\<lparr>node_id = 2, node_name = Some (utf16 ''2''), node_type = 2\<rparr>,
           \<lparr>node_id = 6, node_name = Some (utf16 ''6''), node_type = 3\<rparr>,
           \<lparr>node_id = 7, node_name = Some (utf16 ''7''), node_type = 1\<rparr>,
           \<lparr>node_id = - 1, node_name = Some (utf16 ''a''), node_type = 13\<rparr>,
           \<lparr>node_id = 10, node_name = Some (utf16 ''10''), node_type = 1\<rparr>,
           \<lparr>node_id = - 2, node_name = Some (utf16 ''a''), node_type = 13\<rparr>,
           \<lparr>node_id = 8, node_name = Some (utf16 ''8''), node_type = 1\<rparr>,
           \<lparr>node_id = 11, node_name = Some (utf16 ''11''), node_type = 1\<rparr>,
           \<lparr>node_id = 9, node_name = Some (utf16 ''9''), node_type = 1\<rparr>,
           \<lparr>node_id = 12, node_name = Some (utf16 ''12''), node_type = 1\<rparr>,
           \<lparr>node_id = 13, node_name = Some (utf16 ''13''), node_type = 8\<rparr>,
           \<lparr>node_id = 3, node_name = Some (utf16 ''3''), node_type = 7\<rparr>]\<rparr>)"
  by code_simp

text \<open>
  Claim C5, as the source has it. The node count of the claim fails on an automaton in
  which a state that calls a rule has a second transition. In \<open>odd_atn\<close> the state 4 of
  rule \<open>r\<close> calls rule \<open>a\<close>, whose start state is the state 0, and has an epsilon
  transition besides. \<open>ensureATNNode\<close> makes no rule node for the state 4, as it has two
  transitions; the call is then looked up under the identifier 0 = 0 * 4, which no node
  has, and the start state of rule \<open>a\<close> gets a node of its own. The graph of \<open>r\<close> has the
  four nodes 2, 4, 0 and 3, none of them a rule node, for the three states 2, 4 and 3 of
  the rule.
\<close>

theorem getATNGraph_node_bound_counterexample:
  "\<exists>graph. getATNGraph example_toUpperCase example_displayName odd_loaded (utf16 ''r'') = Inr (Some graph)
      \<and> map node_id (graph_nodes graph) = [2, 4, 0, 3]
      \<and> map node_type (graph_nodes graph) = [2, 1, 2, 7]
      \<and> ruleNodes (graph_nodes graph) = []
      \<and> reachable odd_atn 2 (Some 3) = {2, 4, 3}
      \<and> card (reachable odd_atn 2 (Some 3)) + length (ruleNodes (graph_nodes graph))
           < length (graph_nodes graph)"
proof -
  obtain graph where graph: "getATNGraph example_toUpperCase example_displayName odd_loaded (utf16 ''r'')
                               = Inr (Some graph)"
    and ids: "map node_id (graph_nodes graph) = [2, 4, 0, 3]"
    and types: "map node_type (graph_nodes graph) = [2, 1, 2, 7]"
    using odd_graph
    by (cases "getATNGraph example_toUpperCase example_displayName odd_loaded (utf16 ''r'')";
        cases "projr (getATNGraph example_toUpperCase example_displayName odd_loaded (utf16 ''r''))") auto
  from ids have len: "length (graph_nodes graph) = 4"
    using length_map[of node_id "graph_nodes graph"] by simp
  have "filter (\<lambda>t. t = 13) (map node_type (graph_nodes graph)) = []"
    unfolding types by simp
  then have rules: "ruleNodes (graph_nodes graph) = []"
    by (simp add: ruleNodes_def filter_map comp_def)
  have "card (reachable odd_atn 2 (Some 3)) = 3" unfolding odd_reachable by simp
  with graph ids types rules len odd_reachable show ?thesis by simp
qed

text \<open>
  Claim C5, amended. When \<open>getATNGraph\<close> returns a graph, the traversal that made it has
  taken every state from the pipeline at most once, and the expansion of the stop state
  adds no link and pushes no state. The states expanded are those reachable from the
  start state of the rule along transitions that do not leave its stop state, and they
  are expanded breadth first, in the order in which the loop reached them first: the
  list of the states expanded is the start state followed by the next states of the
  states expanded, in the order of the expansions and of the transitions, every state
  once at its first occurrence. When each of these states that calls a rule has the call
  as its only transition, as in the automata ANTLR builds, the graph has at most as many
  nodes as there are such states plus the nodes of type 13.
\<close>

theorem getATNGraph_expands_each_state_once:
  assumes "getATNGraph toUpperCase getDisplayName c rule = Inr (Some graph)"
  shows "\<exists>isLexerRule data index startState g.
           isLexerRule_of toUpperCase rule = Inr isLexerRule
         \<and> (if isLexerRule then grammarLexerData c else grammarParserData c) = Some data
         \<and> (if isLexerRule then grammarLexerRuleMap c else grammarParserRuleMap c) rule = Some index
         \<and> nth_opt (ruleToStartState (atn data)) index = Some startState
         \<and> extractGraph isLexerRule getDisplayName data index = Inr g
         \<and> graph_nodes graph = nodes g \<and> graph_links graph = links g
         \<and> distinct (expanded g)
         \<and> (\<forall>g0 n g1. Some n = nth_opt (ruleToStopState (atn data)) index
                \<and> expandState isLexerRule getDisplayName (vocabulary data) (atn data) (ruleNames data)
                     (nth_opt (ruleToStopState (atn data)) index) g0 n = Inr g1
               \<longrightarrow> links g1 = links g0 \<and> pipeline g1 = pipeline g0 \<and> seenStates g1 = seenStates g0)
         \<and> set (expanded g)
               = reachable (atn data) startState (nth_opt (ruleToStopState (atn data)) index)
         \<and> expanded g
               = discovered (startState
                   # concat (map (nextStates (atn data) (nth_opt (ruleToStopState (atn data)) index))
                               (expanded g)))
         \<and> (callSitesSingle (atn data) startState (nth_opt (ruleToStopState (atn data)) index) \<longrightarrow>
               length (graph_nodes graph)
                   \<le> card (reachable (atn data) startState (nth_opt (ruleToStopState (atn data)) index))
                     + length (ruleNodes (graph_nodes graph)))"
proof -
  obtain isLexerRule where l: "isLexerRule_of toUpperCase rule = Inr isLexerRule"
    using assms by (cases "isLexerRule_of toUpperCase rule") (simp_all add: getATNGraph_def)
  obtain data where d: "(if isLexerRule then grammarLexerData c else grammarParserData c) = Some data"
    using assms l
    by (cases "if isLexerRule then grammarLexerData c else grammarParserData c")
       (simp_all add: getATNGraph_def)
  obtain index where i: "(if isLexerRule then grammarLexerRuleMap c else grammarParserRuleMap c) rule = Some index"
    using assms l d
    by (cases "(if isLexerRule then grammarLexerRuleMap c else grammarParserRuleMap c) rule")
       (simp_all add: getATNGraph_def)
  obtain g where g: "extractGraph isLexerRule getDisplayName data index = Inr g"
    and gr: "graph = \<lparr>graph_links = links g, graph_nodes = nodes g\<rparr>"
    using assms l d i
    by (cases "extractGraph isLexerRule getDisplayName data index") (simp_all add: getATNGraph_def)
  obtain startState where s: "nth_opt (ruleToStartState (atn data)) index = Some startState"
    using g by (cases "nth_opt (ruleToStartState (atn data)) index") (simp_all add: extractGraph_def)
  let ?stop = "nth_opt (ruleToStopState (atn data)) index"
  have dist: "distinct (expanded g)" by (rule extractGraph_distinct[OF s g])
  have stop: "\<forall>g0 n g1. Some n = ?stop
                \<and> expandState isLexerRule getDisplayName (vocabulary data) (atn data) (ruleNames data)
                     ?stop g0 n = Inr g1
               \<longrightarrow> links g1 = links g0 \<and> pipeline g1 = pipeline g0 \<and> seenStates g1 = seenStates g0"
  proof (intro allI impI, elim conjE)
    fix g0 n g1
    assume "Some n = ?stop"
      "expandState isLexerRule getDisplayName (vocabulary data) (atn data) (ruleNames data) ?stop g0 n = Inr g1"
    then show "links g1 = links g0 \<and> pipeline g1 = pipeline g0 \<and> seenStates g1 = seenStates g0"
      by (rule expandState_stop)
  qed
  have reach: "set (expanded g) = reachable (atn data) startState ?stop"
    by (rule extractGraph_reachable[OF s g])
  have order: "expanded g
                 = discovered (startState # concat (map (nextStates (atn data) ?stop) (expanded g)))"
    by (rule extractGraph_inOrder[OF s g])
  have wf: "callSitesSingle (atn data) startState ?stop \<longrightarrow>
               length (graph_nodes graph)
                   \<le> card (reachable (atn data) startState ?stop) + length (ruleNodes (graph_nodes graph))"
  proof
    assume w: "callSitesSingle (atn data) startState ?stop"
    show "length (graph_nodes graph)
            \<le> card (reachable (atn data) startState ?stop) + length (ruleNodes (graph_nodes graph))"
      using extractGraph_traversal[OF w s g] by (simp add: gr)
  qed
  show ?thesis
  proof (rule exI[of _ isLexerRule], rule exI[of _ data], rule exI[of _ index],
      rule exI[of _ startState], rule exI[of _ g], intro conjI)
    show "isLexerRule_of toUpperCase rule = Inr isLexerRule" by (rule l)
    show "(if isLexerRule then grammarLexerData c else grammarParserData c) = Some data" by (rule d)
    show "(if isLexerRule then grammarLexerRuleMap c else grammarParserRuleMap c) rule = Some index"
      by (rule i)
    show "nth_opt (ruleToStartState (atn data)) index = Some startState" by (rule s)
    show "extractGraph isLexerRule getDisplayName data index = Inr g" by (rule g)
    show "graph_nodes graph = nodes g" by (simp add: gr)
    show "graph_links graph = links g" by (simp add: gr)
    show "distinct (expanded g)" by (rule dist)
    show "\<forall>g0 n g1. Some n = ?stop
                \<and> expandState isLexerRule getDisplayName (vocabulary data) (atn data) (ruleNames data)
                     ?stop g0 n = Inr g1
               \<longrightarrow> links g1 = links g0 \<and> pipeline g1 = pipeline g0 \<and> seenStates g1 = seenStates g0"
      by (rule stop)
    show "set (expanded g) = reachable (atn data) startState ?stop" by (rule reach)
    show "expanded g
            = discovered (startState # concat (map (nextStates (atn data) ?stop) (expanded g)))"
      by (rule order)
    show "callSitesSingle (atn data) startState ?stop \<longrightarrow>
               length (graph_nodes graph)
                   \<le> card (reachable (atn data) startState ?stop) + length (ruleNodes (graph_nodes graph))"
      by (rule wf)
  qed
qed

text \<open>The instance: the graph of rule \<open>r\<close> of the example grammar has twelve nodes, two of them
  rule nodes, for the ten states of the rule, which are expanded level by level: the
  start state 2, the block start 6, the two call sites 7 and 10, their follow states 8
  and 11, then 9 and 12, the block end 13 and the stop state 3.\<close>

theorem getATNGraph_expands_each_state_once_witness:
  "callSitesSingle example_atn 2 (Some 3)
   \<and> (\<exists>graph. getATNGraph example_toUpperCase example_displayName example_loaded (utf16 ''r'')
                 = Inr (Some graph)
         \<and> length (graph_nodes graph) = 12 \<and> length (ruleNodes (graph_nodes graph)) = 2
         \<and> length (graph_nodes graph)
             \<le> card (reachable example_atn 2 (Some 3)) + length (ruleNodes (graph_nodes graph)))
   \<and> (\<exists>g. extractGraph False example_displayName example_data 1 = Inr g
         \<and> expanded g = [2, 6, 7, 10, 8, 11, 9, 12, 13, 3]
         \<and> reachable example_atn 2 (Some 3) = set (expanded g)
         \<and> expanded g = discovered (2 # concat (map (nextStates example_atn (Some 3)) (expanded g))))"
proof -
  have "callSitesSingleEverywhere example_atn" by code_simp
  then have w: "callSitesSingle example_atn 2 (Some 3)" by (rule callSitesSingleEverywhere)
  obtain graph where graph: "getATNGraph example_toUpperCase example_displayName example_loaded (utf16 ''r'')
                               = Inr (Some graph)"
    and n: "length (graph_nodes graph) = 12" "length (ruleNodes (graph_nodes graph)) = 2"
    using example_graph_size
    by (cases "getATNGraph example_toUpperCase example_displayName example_loaded (utf16 ''r'')";
        cases "projr (getATNGraph example_toUpperCase example_displayName example_loaded (utf16 ''r''))") auto
  from getATNGraph_expands_each_state_once[OF graph]
  obtain isLexerRule data index startState g where
    l: "isLexerRule_of example_toUpperCase (utf16 ''r'') = Inr isLexerRule"
    and d: "(if isLexerRule then grammarLexerData example_loaded else grammarParserData example_loaded) = Some data"
    and i: "(if isLexerRule then grammarLexerRuleMap example_loaded else grammarParserRuleMap example_loaded)
              (utf16 ''r'') = Some index"
    and s: "nth_opt (ruleToStartState (atn data)) index = Some startState"
    and g: "extractGraph isLexerRule example_displayName data index = Inr g"
    and r: "set (expanded g)
              = reachable (atn data) startState (nth_opt (ruleToStopState (atn data)) index)"
    and o: "expanded g
              = discovered (startState
                  # concat (map (nextStates (atn data) (nth_opt (ruleToStopState (atn data)) index))
                              (expanded g)))"
    and b: "callSitesSingle (atn data) startState (nth_opt (ruleToStopState (atn data)) index) \<longrightarrow>
              length (graph_nodes graph)
                \<le> card (reachable (atn data) startState (nth_opt (ruleToStopState (atn data)) index))
                  + length (ruleNodes (graph_nodes graph))"
    by blast
  have lex: "isLexerRule = False" using l example_combined_fields(6) by simp
  with d i have data: "data = example_data" and index: "index = 1"
    by (simp_all add: example_loaded_fields)
  have a: "atn example_data = example_atn" by (simp add: example_data_def)
  have stop: "nth_opt (ruleToStopState example_atn) 1 = Some 3" by code_simp
  have "nth_opt (ruleToStartState example_atn) 1 = Some 2" by code_simp
  with s have start: "startState = 2" unfolding data index a by simp
  from b w have bound: "length (graph_nodes graph)
                     \<le> card (reachable example_atn 2 (Some 3)) + length (ruleNodes (graph_nodes graph))"
    unfolding data index a stop start by simp
  from example_expanded g have e: "expanded g = [2, 6, 7, 10, 8, 11, 9, 12, 13, 3]"
    unfolding data index lex by simp
  note r' = r[unfolded data index a stop start, symmetric]
  note o' = o[unfolded data index a stop start]
  have "extractGraph False example_displayName example_data 1 = Inr g
         \<and> expanded g = [2, 6, 7, 10, 8, 11, 9, 12, 13, 3]
         \<and> reachable example_atn 2 (Some 3) = set (expanded g)
         \<and> expanded g = discovered (2 # concat (map (nextStates example_atn (Some 3)) (expanded g)))"
    using g[unfolded data index lex] e r' o' by (intro conjI)
  then have ex: "\<exists>g. extractGraph False example_displayName example_data 1 = Inr g
         \<and> expanded g = [2, 6, 7, 10, 8, 11, 9, 12, 13, 3]
         \<and> reachable example_atn 2 (Some 3) = set (expanded g)
         \<and> expanded g = discovered (2 # concat (map (nextStates example_atn (Some 3)) (expanded g)))"
    by (rule exI)
  from w graph n bound have "\<exists>graph. getATNGraph example_toUpperCase example_displayName example_loaded
                 (utf16 ''r'') = Inr (Some graph)
         \<and> length (graph_nodes graph) = 12 \<and> length (ruleNodes (graph_nodes graph)) = 2
         \<and> length (graph_nodes graph)
             \<le> card (reachable example_atn 2 (Some 3)) + length (ruleNodes (graph_nodes graph))"
    by blast
  with w ex show ?thesis by (intro conjI)
qed


end
